theory Spec2Isabelle
  imports Complex_Main "HOL-Library.Sublist"
begin


section \<open>JavaScript numbers\<close>

text \<open>
  A JavaScript number is an IEEE 754 double: a real number with a 53-bit significand
  and an exponent between \<open>-1074\<close> and \<open>971\<close>, one of the two infinities, or \<open>NaN\<close>.
  Every arithmetic operation computes the exact result and rounds it to the nearest
  double, a tie going to the neighbour with an even significand; a result of magnitude
  \<open>2 ^ 1024\<close> or more after rounding is an infinity.  The sign of zero is not modelled
  (the program never divides by a coordinate, so \<open>-0\<close> and \<open>0\<close> behave alike).
  Element counts, capacities and depths are small integers, on which double
  arithmetic is exact; they are modelled as integers.
\<close>

datatype number = Fin real | PInf | NInf | NaN

definition pow2 :: "int \<Rightarrow> real" where
  "pow2 k = (if 0 \<le> k then 2 ^ nat k else 1 / 2 ^ nat (- k))"

definition round_even :: "real \<Rightarrow> int" where
  "round_even q =
     (let f = \<lfloor>q\<rfloor>; d = q - of_int f
      in if d < 1 / 2 then f else if 1 / 2 < d then f + 1 else if even f then f else f + 1)"

text \<open>
  The exponent of the unit in the last place of the doubles around \<open>v\<close>: 52 binary
  places below the leading bit of \<open>v\<close>, and never below the exponent \<open>-1074\<close> of the
  subnormal doubles.
\<close>

definition ulp_exp :: "real \<Rightarrow> int" where
  "ulp_exp v = max (\<lfloor>log 2 \<bar>v\<bar>\<rfloor> - 52) (- 1074)"

definition rnd :: "real \<Rightarrow> number" where
  "rnd v =
     (if v = 0 then Fin 0
      else
        let k = ulp_exp v;
            r = of_int (round_even (v / pow2 k)) * pow2 k
        in if 2 ^ 1024 \<le> r then PInf else if r \<le> - (2 ^ 1024) then NInf else Fin r)"

text \<open>The doubles among the values of type \<open>number\<close>.\<close>

fun is_double :: "number \<Rightarrow> bool" where
  "is_double (Fin v) = (rnd v = Fin v)"
| "is_double n = True"

fun nneg :: "number \<Rightarrow> number" where
  "nneg (Fin a) = Fin (- a)"
| "nneg PInf = NInf"
| "nneg NInf = PInf"
| "nneg NaN = NaN"

fun nadd :: "number \<Rightarrow> number \<Rightarrow> number" where
  "nadd (Fin a) (Fin b) = rnd (a + b)"
| "nadd NaN b = NaN"
| "nadd a NaN = NaN"
| "nadd PInf NInf = NaN"
| "nadd NInf PInf = NaN"
| "nadd PInf b = PInf"
| "nadd a PInf = PInf"
| "nadd NInf b = NInf"
| "nadd a NInf = NInf"

definition nsub :: "number \<Rightarrow> number \<Rightarrow> number" where
  "nsub a b = nadd a (nneg b)"

fun nmul :: "number \<Rightarrow> number \<Rightarrow> number" where
  "nmul (Fin a) (Fin b) = rnd (a * b)"
| "nmul NaN b = NaN"
| "nmul a NaN = NaN"
| "nmul (Fin a) b = (if a = 0 then NaN else if (0 < a) = (b = PInf) then PInf else NInf)"
| "nmul a (Fin b) = (if b = 0 then NaN else if (0 < b) = (a = PInf) then PInf else NInf)"
| "nmul a b = (if a = b then PInf else NInf)"

text \<open>\<open>a / 2\<close>.\<close>

fun nhalf :: "number \<Rightarrow> number" where
  "nhalf (Fin a) = rnd (a / 2)"
| "nhalf a = a"

text \<open>The comparisons; every comparison with \<open>NaN\<close> is false.\<close>

fun nlt :: "number \<Rightarrow> number \<Rightarrow> bool" where
  "nlt (Fin a) (Fin b) = (a < b)"
| "nlt NaN b = False"
| "nlt a NaN = False"
| "nlt a NInf = False"
| "nlt PInf b = False"
| "nlt a b = True"

fun nle :: "number \<Rightarrow> number \<Rightarrow> bool" where
  "nle (Fin a) (Fin b) = (a \<le> b)"
| "nle NaN b = False"
| "nle a NaN = False"
| "nle NInf b = True"
| "nle a PInf = True"
| "nle a b = False"

abbreviation ngt :: "number \<Rightarrow> number \<Rightarrow> bool" where
  "ngt a b \<equiv> nlt b a"

abbreviation nge :: "number \<Rightarrow> number \<Rightarrow> bool" where
  "nge a b \<equiv> nle b a"

section \<open>Elements and their containment predicates\<close>

text \<open>
  An element object is identified by its \<open>id\<close>: \<open>GenerateID\<close> hands out a fresh number
  for every constructed element, so the reference comparisons of \<open>indexOf\<close> and the
  \<open>id\<close>-keyed lookups of the owner index agree.  The geometry of an element is mutable
  by the caller and is read by the tree only through \<open>IsInsideRect\<close>; it is kept
  outside the tree, as an environment \<open>G\<close> from elements to shapes that every operation
  reading geometry receives.
\<close>

type_synonym elem = nat
type_synonym addr = nat

datatype shape =
    Unknown
  | Point number number
  | Circle number number number
  | Rect number number number number

fun IsInsideRect :: "shape \<Rightarrow> number \<Rightarrow> number \<Rightarrow> number \<Rightarrow> number \<Rightarrow> bool" where
  "IsInsideRect Unknown x y width height = False"
| "IsInsideRect (Point px py) x y width height =
     (nge px x \<and> nge py y \<and> nlt px (nadd x width) \<and> nlt py (nadd y height))"
| "IsInsideRect (Circle cx cy r) x y width height =
     (let closestX = (if nlt cx x then x
                      else if ngt cx (nadd x width) then nadd x width else cx);
          closestY = (if nlt cy y then y
                      else if ngt cy (nadd y height) then nadd y height else cy);
          distX = nsub cx closestX;
          distY = nsub cy closestY;
          sqDistance = nadd (nmul distX distX) (nmul distY distY)
      in nle sqDistance (nmul r r))"
| "IsInsideRect (Rect ex ey ew eh) x y width height =
     (nlt ex (nadd x width) \<and> ngt (nadd ex ew) x \<and>
      nlt ey (nadd y height) \<and> ngt (nadd ey eh) y)"

section \<open>Tree nodes and the heap\<close>

record QuadTree =
  t_x :: number
  t_y :: number
  t_width :: number
  t_height :: number
  t_maxElements :: int
  t_elements :: "elem list"
  t_elementsParents :: "(elem \<rightharpoonup> addr list) option"
  t_children :: "addr list"
  t_root :: "addr option"
  t_depth :: int
  t_parent :: "addr option"
  t_maxDepth :: int

text \<open>
  Nodes are objects with identity: the heap maps addresses to node objects, and
  \<open>next_addr\<close> is the first address not yet handed out by \<open>new\<close>.
\<close>

record heap =
  nodes :: "addr \<Rightarrow> QuadTree"
  next_addr :: addr

datatype error = OutOfFuel | TypeError

definition upd :: "addr \<Rightarrow> (QuadTree \<Rightarrow> QuadTree) \<Rightarrow> heap \<Rightarrow> heap" where
  "upd a f s = s\<lparr>nodes := (nodes s)(a := f (nodes s a))\<rparr>"

definition inside :: "(elem \<Rightarrow> shape) \<Rightarrow> elem \<Rightarrow> QuadTree \<Rightarrow> bool" where
  "inside G element t = IsInsideRect (G element) (t_x t) (t_y t) (t_width t) (t_height t)"

definition IsPointInBounds :: "QuadTree \<Rightarrow> number \<Rightarrow> number \<Rightarrow> bool" where
  "IsPointInBounds t x y =
     (nge x (t_x t) \<and> nge y (t_y t) \<and>
      nlt x (nadd (t_x t) (t_width t)) \<and> nlt y (nadd (t_y t) (t_height t)))"

definition IsRectInBounds :: "QuadTree \<Rightarrow> number \<Rightarrow> number \<Rightarrow> number \<Rightarrow> number \<Rightarrow> bool" where
  "IsRectInBounds t x y width height =
     (nlt (t_x t) (nadd x width) \<and> ngt (nadd (t_x t) (t_width t)) x \<and>
      nlt (t_y t) (nadd y height) \<and> ngt (nadd (t_y t) (t_height t)) y)"

definition IsSplit :: "QuadTree \<Rightarrow> bool" where
  "IsSplit t = (length (t_children t) > 0)"

definition GetElements :: "heap \<Rightarrow> addr \<Rightarrow> elem list" where
  "GetElements s this = t_elements (nodes s this)"

section \<open>The owner index\<close>

text \<open>\<open>this._root ?? this\<close>: the node that holds the owner index.\<close>

definition rootTree :: "heap \<Rightarrow> addr \<Rightarrow> addr" where
  "rootTree s this = (case t_root (nodes s this) of None \<Rightarrow> this | Some r \<Rightarrow> r)"

text \<open>
  The contents of the array \<open>rt._elementsParents[element.id]\<close>, empty when the index or
  the entry is absent.
\<close>

definition elParents_of :: "heap \<Rightarrow> addr \<Rightarrow> elem \<Rightarrow> addr list" where
  "elParents_of s rt element =
     (case t_elementsParents (nodes s rt) of
        None \<Rightarrow> []
      | Some ep \<Rightarrow> (case ep element of None \<Rightarrow> [] | Some l \<Rightarrow> l))"

text \<open>
  Assignment to the array held at \<open>rt._elementsParents[element.id]\<close>: the arrays of the
  owner index are only reached through the index, so \<open>push\<close> and \<open>pop\<close> on the local
  alias \<open>elParents\<close> are updates of that entry.
\<close>

definition set_elParents :: "addr \<Rightarrow> elem \<Rightarrow> addr list option \<Rightarrow> heap \<Rightarrow> heap" where
  "set_elParents rt element v =
     upd rt (\<lambda>t. t\<lparr>t_elementsParents :=
       (case t_elementsParents t of None \<Rightarrow> None | Some ep \<Rightarrow> Some (ep(element := v)))\<rparr>)"

text \<open>
  \<open>_GetParentsForElement(element, create)\<close>: reading a property of the \<open>null\<close> index
  throws a \<open>TypeError\<close>.
\<close>

definition priv_GetParentsForElement ::
  "heap \<Rightarrow> addr \<Rightarrow> elem \<Rightarrow> bool \<Rightarrow> error + (addr list option \<times> heap)" where
  "priv_GetParentsForElement s this element create =
     (let rt = rootTree s this in
      case t_elementsParents (nodes s rt) of
        None \<Rightarrow> Inl TypeError
      | Some ep \<Rightarrow>
          if create \<and> ep element = None
          then Inr (Some [], set_elParents rt element (Some []) s)
          else Inr (ep element, s))"

definition priv_RemoveParentsForElement :: "heap \<Rightarrow> addr \<Rightarrow> elem \<Rightarrow> error + heap" where
  "priv_RemoveParentsForElement s this element =
     (let rt = rootTree s this in
      case t_elementsParents (nodes s rt) of
        None \<Rightarrow> Inl TypeError
      | Some ep \<Rightarrow> Inr (set_elParents rt element None s))"

definition GetParentsForElement :: "heap \<Rightarrow> addr \<Rightarrow> elem \<Rightarrow> error + addr list option" where
  "GetParentsForElement s this element =
     (case priv_GetParentsForElement s this element False of
        Inl e \<Rightarrow> Inl e
      | Inr (parents, _) \<Rightarrow> Inr parents)"

fun indexOf :: "'a list \<Rightarrow> 'a \<Rightarrow> int" where
  "indexOf [] v = -1"
| "indexOf (x # xs) v =
     (if x = v then 0 else (let i = indexOf xs v in if i < 0 then -1 else i + 1))"

definition HasElement :: "heap \<Rightarrow> addr \<Rightarrow> elem \<Rightarrow> error + bool" where
  "HasElement s this element =
     (case priv_GetParentsForElement s this element False of
        Inl e \<Rightarrow> Inl e
      | Inr (parents, _) \<Rightarrow>
          Inr (case parents of None \<Rightarrow> False | Some l \<Rightarrow> indexOf l this \<ge> 0))"

section \<open>Insertion and subdivision\<close>

definition push_element :: "addr \<Rightarrow> elem \<Rightarrow> heap \<Rightarrow> heap" where
  "push_element tree element = upd tree (\<lambda>t. t\<lparr>t_elements := t_elements t @ [element]\<rparr>)"

definition push_elParents :: "addr \<Rightarrow> elem \<Rightarrow> addr \<Rightarrow> heap \<Rightarrow> heap" where
  "push_elParents rt element tree s =
     set_elParents rt element (Some (elParents_of s rt element @ [tree])) s"

definition set_children :: "addr \<Rightarrow> addr list \<Rightarrow> heap \<Rightarrow> heap" where
  "set_children tree cs = upd tree (\<lambda>t. t\<lparr>t_children := cs\<rparr>)"

definition may_split :: "QuadTree \<Rightarrow> bool" where
  "may_split t =
     ((t_maxDepth t < 0 \<or> t_depth t < t_maxDepth t) \<and>
      int (length (t_elements t)) > t_maxElements t)"

definition record_element :: "addr \<Rightarrow> elem \<Rightarrow> addr \<Rightarrow> heap \<Rightarrow> heap" where
  "record_element rt element tree s =
     push_element tree element (push_elParents rt element tree s)"

text \<open>The field initialisers at the top of the constructor, and \<open>new\<close> itself.\<close>

definition new_object ::
  "number \<Rightarrow> number \<Rightarrow> number \<Rightarrow> number \<Rightarrow> int \<Rightarrow> int \<Rightarrow> addr option \<Rightarrow> QuadTree" where
  "new_object x y width height maxElements maxDepth parent =
     \<lparr>t_x = x, t_y = y, t_width = width, t_height = height,
      t_maxElements = maxElements, t_elements = [], t_elementsParents = None,
      t_children = [], t_root = None, t_depth = 0, t_parent = parent,
      t_maxDepth = maxDepth\<rparr>"

definition alloc :: "QuadTree \<Rightarrow> heap \<Rightarrow> heap" where
  "alloc obj s = s\<lparr>nodes := (nodes s)(next_addr s := obj), next_addr := Suc (next_addr s)\<rparr>"

definition init_root :: "addr \<Rightarrow> heap \<Rightarrow> heap" where
  "init_root this = upd this (\<lambda>t. t\<lparr>t_elementsParents := Some Map.empty\<rparr>)"

definition init_child :: "addr \<Rightarrow> addr \<Rightarrow> heap \<Rightarrow> heap" where
  "init_child this p s =
     upd this (\<lambda>t. t\<lparr>t_root := Some (rootTree s p), t_depth := t_depth (nodes s p) + 1\<rparr>) s"

text \<open>
  \<open>AddElement\<close> and the constructor call each other: a leaf that overflows builds four
  children, and each child's constructor re-inserts the parent's elements.  Without a
  depth limit that recursion need not end (more than \<open>maxElements\<close> circles around one
  corner of the root overlap a child at every level, also once the halved width has
  reached zero), so every function takes fuel, and running out of it is the result
  \<open>Inl OutOfFuel\<close>.

  \<open>AddElement_loop\<close> is the \<open>while (treePool.length > 0)\<close> loop; \<open>rt\<close> is the node whose
  index holds the array aliased by \<open>elParents\<close>, and \<open>record_element\<close> is the pair of
  pushes \<open>elParents.push(tree); tree._elements.push(element)\<close>.  \<open>QuadTree_new\<close> is the
  constructor and returns the address of the new object; \<open>QuadTree_init\<close> is its \<open>for\<close>
  loop over the elements to insert (the array it reads is not changed by the
  insertions into the new node, so the loop runs over its contents at entry).
\<close>

function (sequential) AddElement_loop ::
      "nat \<Rightarrow> (elem \<Rightarrow> shape) \<Rightarrow> elem \<Rightarrow> addr \<Rightarrow> addr list \<Rightarrow> heap \<Rightarrow> error + heap"
  and QuadTree_new ::
      "nat \<Rightarrow> (elem \<Rightarrow> shape) \<Rightarrow> heap \<Rightarrow> number \<Rightarrow> number \<Rightarrow> number \<Rightarrow> number \<Rightarrow> int \<Rightarrow> int \<Rightarrow>
       elem list \<Rightarrow> addr option \<Rightarrow> error + (addr \<times> heap)"
  and QuadTree_init ::
      "nat \<Rightarrow> (elem \<Rightarrow> shape) \<Rightarrow> addr \<Rightarrow> elem list \<Rightarrow> heap \<Rightarrow> error + heap"
  and AddElement ::
      "nat \<Rightarrow> (elem \<Rightarrow> shape) \<Rightarrow> heap \<Rightarrow> addr \<Rightarrow> elem \<Rightarrow> error + (bool \<times> heap)"
where
  "AddElement_loop 0 G element rt treePool s = Inl OutOfFuel"
| "AddElement_loop (Suc k) G element rt treePool s =
     (if treePool = [] then Inr s
      else
        let tree = last treePool; pool = butlast treePool in
        if \<not> inside G element (nodes s tree) then AddElement_loop k G element rt pool s
        else
          let s1 = record_element rt element tree s;
              t = nodes s1 tree
          in
          if IsSplit t then AddElement_loop k G element rt (pool @ t_children t) s1
          else if may_split t then
            (let halfWidth = nhalf (t_width t); halfHeight = nhalf (t_height t) in
             case QuadTree_new k G s1 (t_x t) (t_y t) halfWidth halfHeight
                    (t_maxElements t) (t_maxDepth t) [] (Some tree) of
               Inl e \<Rightarrow> Inl e
             | Inr (c1, s2) \<Rightarrow>
             (case QuadTree_new k G s2 (nadd (t_x t) halfWidth) (t_y t) halfWidth halfHeight
                    (t_maxElements t) (t_maxDepth t) [] (Some tree) of
               Inl e \<Rightarrow> Inl e
             | Inr (c2, s3) \<Rightarrow>
             (case QuadTree_new k G s3 (t_x t) (nadd (t_y t) halfHeight) halfWidth halfHeight
                    (t_maxElements t) (t_maxDepth t) [] (Some tree) of
               Inl e \<Rightarrow> Inl e
             | Inr (c3, s4) \<Rightarrow>
             (case QuadTree_new k G s4 (nadd (t_x t) halfWidth) (nadd (t_y t) halfHeight)
                    halfWidth halfHeight (t_maxElements t) (t_maxDepth t) [] (Some tree) of
               Inl e \<Rightarrow> Inl e
             | Inr (c4, s5) \<Rightarrow>
                 AddElement_loop k G element rt pool
                   (set_children tree [c1, c2, c3, c4] s5)))))
          else AddElement_loop k G element rt pool s1)"
| "QuadTree_new 0 G s x y width height maxElements maxDepth initialElements parent =
     Inl OutOfFuel"
| "QuadTree_new (Suc k) G s x y width height maxElements maxDepth initialElements parent =
     (let this = next_addr s;
          s0 = alloc (new_object x y width height maxElements maxDepth parent) s
      in
      case parent of
        None \<Rightarrow>
          (case QuadTree_init k G this initialElements (init_root this s0) of
             Inl e \<Rightarrow> Inl e
           | Inr s' \<Rightarrow> Inr (this, s'))
      | Some p \<Rightarrow>
          (let s1 = init_child this p s0 in
           case QuadTree_init k G this (t_elements (nodes s1 p)) s1 of
             Inl e \<Rightarrow> Inl e
           | Inr s' \<Rightarrow> Inr (this, s')))"
| "QuadTree_init 0 G this els s = Inl OutOfFuel"
| "QuadTree_init (Suc k) G this [] s = Inr s"
| "QuadTree_init (Suc k) G this (el # els) s =
     (case AddElement k G s this el of
        Inl e \<Rightarrow> Inl e
      | Inr (_, s') \<Rightarrow> QuadTree_init k G this els s')"
| "AddElement 0 G s this element = Inl OutOfFuel"
| "AddElement (Suc k) G s this element =
     (case priv_GetParentsForElement s this element True of
        Inl e \<Rightarrow> Inl e
      | Inr (None, _) \<Rightarrow> Inl TypeError
      | Inr (Some elParents, s0) \<Rightarrow>
          (let initialParentCount = length elParents; rt = rootTree s this in
           case AddElement_loop k G element rt [this] s0 of
             Inl e \<Rightarrow> Inl e
           | Inr s' \<Rightarrow> Inr (length (elParents_of s' rt element) > initialParentCount, s')))"
  by pat_completeness auto

termination
  by (relation "measure (\<lambda>v. case v of
         Inl (Inl a) \<Rightarrow> fst a | Inl (Inr b) \<Rightarrow> fst b
       | Inr (Inl c) \<Rightarrow> fst c | Inr (Inr d) \<Rightarrow> fst d)") simp_all

text \<open>
  The runs of the four functions that return, as a relation: a run with enough fuel is
  a derivation, which gives an induction principle over the calls a run makes.
\<close>

inductive
  loop_run :: "(elem \<Rightarrow> shape) \<Rightarrow> elem \<Rightarrow> addr \<Rightarrow> addr list \<Rightarrow> heap \<Rightarrow> heap \<Rightarrow> bool" and
  new_run :: "(elem \<Rightarrow> shape) \<Rightarrow> heap \<Rightarrow> QuadTree \<Rightarrow> elem list \<Rightarrow> addr \<Rightarrow> heap \<Rightarrow> bool" and
  init_run :: "(elem \<Rightarrow> shape) \<Rightarrow> addr \<Rightarrow> elem list \<Rightarrow> heap \<Rightarrow> heap \<Rightarrow> bool" and
  add_run :: "(elem \<Rightarrow> shape) \<Rightarrow> heap \<Rightarrow> addr \<Rightarrow> elem \<Rightarrow> heap \<Rightarrow> bool"
where
  loop_done: "loop_run G e rt [] s s"
| loop_skip:
    "\<not> inside G e (nodes s tree) \<Longrightarrow> loop_run G e rt pool s s' \<Longrightarrow>
     loop_run G e rt (pool @ [tree]) s s'"
| loop_descend:
    "inside G e (nodes s tree) \<Longrightarrow> s1 = record_element rt e tree s \<Longrightarrow>
     IsSplit (nodes s1 tree) \<Longrightarrow>
     loop_run G e rt (pool @ t_children (nodes s1 tree)) s1 s' \<Longrightarrow>
     loop_run G e rt (pool @ [tree]) s s'"
| loop_split:
    "inside G e (nodes s tree) \<Longrightarrow> s1 = record_element rt e tree s \<Longrightarrow>
     t = nodes s1 tree \<Longrightarrow> \<not> IsSplit t \<Longrightarrow> may_split t \<Longrightarrow>
     new_run G s1 (new_object (t_x t) (t_y t) (nhalf (t_width t)) (nhalf (t_height t))
                     (t_maxElements t) (t_maxDepth t) (Some tree)) [] c1 s2 \<Longrightarrow>
     new_run G s2 (new_object (nadd (t_x t) (nhalf (t_width t))) (t_y t) (nhalf (t_width t)) (nhalf (t_height t))
                     (t_maxElements t) (t_maxDepth t) (Some tree)) [] c2 s3 \<Longrightarrow>
     new_run G s3 (new_object (t_x t) (nadd (t_y t) (nhalf (t_height t))) (nhalf (t_width t)) (nhalf (t_height t))
                     (t_maxElements t) (t_maxDepth t) (Some tree)) [] c3 s4 \<Longrightarrow>
     new_run G s4 (new_object (nadd (t_x t) (nhalf (t_width t))) (nadd (t_y t) (nhalf (t_height t)))
                     (nhalf (t_width t)) (nhalf (t_height t))
                     (t_maxElements t) (t_maxDepth t) (Some tree)) [] c4 s5 \<Longrightarrow>
     loop_run G e rt pool (set_children tree [c1, c2, c3, c4] s5) s' \<Longrightarrow>
     loop_run G e rt (pool @ [tree]) s s'"
| loop_stay:
    "inside G e (nodes s tree) \<Longrightarrow> s1 = record_element rt e tree s \<Longrightarrow>
     \<not> IsSplit (nodes s1 tree) \<Longrightarrow> \<not> may_split (nodes s1 tree) \<Longrightarrow>
     loop_run G e rt pool s1 s' \<Longrightarrow>
     loop_run G e rt (pool @ [tree]) s s'"
| new_root:
    "obj = new_object x y width height maxElements maxDepth None \<Longrightarrow>
     init_run G (next_addr s) inits (init_root (next_addr s) (alloc obj s)) s' \<Longrightarrow>
     new_run G s obj inits (next_addr s) s'"
| new_child:
    "obj = new_object x y width height maxElements maxDepth (Some p) \<Longrightarrow>
     s1 = init_child (next_addr s) p (alloc obj s) \<Longrightarrow>
     init_run G (next_addr s) (t_elements (nodes s1 p)) s1 s' \<Longrightarrow>
     new_run G s obj inits (next_addr s) s'"
| init_nil: "init_run G this [] s s"
| init_cons:
    "add_run G s this el s1 \<Longrightarrow> init_run G this els s1 s' \<Longrightarrow>
     init_run G this (el # els) s s'"
| add:
    "priv_GetParentsForElement s this e True = Inr (Some elParents, s0) \<Longrightarrow>
     loop_run G e (rootTree s this) [this] s0 s' \<Longrightarrow>
     add_run G s this e s'"

section \<open>Removal and update\<close>

text \<open>
  \<open>xs.splice(start, 1)\<close>: a negative \<open>start\<close> counts from the end of the array, so
  \<open>splice(-1, 1)\<close> removes the last element.
\<close>

definition splice1 :: "'a list \<Rightarrow> int \<Rightarrow> 'a list" where
  "splice1 xs start =
     (let len = int (length xs);
          st = (if start < 0 then max (len + start) 0 else min start len)
      in take (nat st) xs @ drop (nat st + 1) xs)"

definition pop_elParents :: "addr \<Rightarrow> elem \<Rightarrow> heap \<Rightarrow> heap" where
  "pop_elParents rt element s =
     set_elParents rt element (Some (butlast (elParents_of s rt element))) s"

definition remove_from :: "addr \<Rightarrow> elem \<Rightarrow> heap \<Rightarrow> heap" where
  "remove_from tree element =
     upd tree (\<lambda>t. t\<lparr>t_elements :=
       splice1 (t_elements t) (indexOf (t_elements t) element)\<rparr>)"

lemma elParents_of_pop:
  "elParents_of s rt element \<noteq> [] \<Longrightarrow>
   elParents_of (remove_from tree element (pop_elParents rt element s)) rt element =
   butlast (elParents_of s rt element)"
  by (auto simp: elParents_of_def remove_from_def pop_elParents_def set_elParents_def upd_def
           split: option.splits)

function RemoveElement_loop :: "elem \<Rightarrow> addr \<Rightarrow> heap \<Rightarrow> heap" where
  "RemoveElement_loop element rt s =
     (let elParents = elParents_of s rt element in
      if length elParents > 0 then
        (let tree = last elParents in
         RemoveElement_loop element rt
           (remove_from tree element (pop_elParents rt element s)))
      else s)"
  by pat_completeness auto

termination
  by (relation "measure (\<lambda>(element, rt, s). length (elParents_of s rt element))")
     (auto simp: elParents_of_pop)

declare RemoveElement_loop.simps [simp del]

definition RemoveElement :: "heap \<Rightarrow> addr \<Rightarrow> elem \<Rightarrow> error + (bool \<times> heap)" where
  "RemoveElement s this element =
     (case HasElement s this element of
        Inl e \<Rightarrow> Inl e
      | Inr has \<Rightarrow>
          if \<not> has then Inr (False, s)
          else
            (case priv_GetParentsForElement s this element False of
               Inl e \<Rightarrow> Inl e
             | Inr (None, _) \<Rightarrow> Inl TypeError
             | Inr (Some elParents, s0) \<Rightarrow>
                 (case priv_RemoveParentsForElement
                         (RemoveElement_loop element (rootTree s this) s0) this element of
                    Inl e \<Rightarrow> Inl e
                  | Inr s' \<Rightarrow> Inr (True, s'))))"

definition UpdateElement ::
  "nat \<Rightarrow> (elem \<Rightarrow> shape) \<Rightarrow> heap \<Rightarrow> addr \<Rightarrow> elem \<Rightarrow> error + (bool \<times> heap)" where
  "UpdateElement fuel G s this element =
     (case RemoveElement s this element of
        Inl e \<Rightarrow> Inl e
      | Inr (removed, s') \<Rightarrow>
          if removed then AddElement fuel G s' this element else Inr (False, s'))"

section \<open>Queries\<close>

fun GetElementsAt_loop :: "nat \<Rightarrow> heap \<Rightarrow> number \<Rightarrow> number \<Rightarrow> addr list \<Rightarrow> error + elem list" where
  "GetElementsAt_loop 0 s x y treePool = Inl OutOfFuel"
| "GetElementsAt_loop (Suc k) s x y treePool =
     (if treePool = [] then Inr []
      else
        let tree = last treePool; pool = butlast treePool; t = nodes s tree in
        if length (t_elements t) = 0 \<or> \<not> IsPointInBounds t x y
        then GetElementsAt_loop k s x y pool
        else if IsSplit t then GetElementsAt_loop k s x y (pool @ t_children t)
        else Inr (GetElements s tree))"

definition GetElementsAt :: "nat \<Rightarrow> heap \<Rightarrow> addr \<Rightarrow> number \<Rightarrow> number \<Rightarrow> error + elem list" where
  "GetElementsAt fuel s this x y = GetElementsAt_loop fuel s x y [this]"

fun GetElementsInRect_loop ::
  "nat \<Rightarrow> heap \<Rightarrow> number \<Rightarrow> number \<Rightarrow> number \<Rightarrow> number \<Rightarrow> addr list \<Rightarrow> elem list \<Rightarrow>
   error + elem list"
where
  "GetElementsInRect_loop 0 s x y width height treePool elements = Inl OutOfFuel"
| "GetElementsInRect_loop (Suc k) s x y width height treePool elements =
     (if treePool = [] then Inr elements
      else
        let tree = last treePool; pool = butlast treePool; t = nodes s tree in
        if length (t_elements t) = 0 \<or> \<not> IsRectInBounds t x y width height
        then GetElementsInRect_loop k s x y width height pool elements
        else if IsSplit t
        then GetElementsInRect_loop k s x y width height (pool @ t_children t) elements
        else GetElementsInRect_loop k s x y width height pool (elements @ t_elements t))"

text \<open>
  The callback of \<open>elements.filter\<close>: \<open>seenElements\<close> is the object used as a set of
  ids, a missing key reading as false.
\<close>

fun filter_seen :: "(elem \<Rightarrow> bool) \<Rightarrow> elem list \<Rightarrow> elem list" where
  "filter_seen seenElements [] = []"
| "filter_seen seenElements (el # els) =
     (if seenElements el then filter_seen seenElements els
      else el # filter_seen (seenElements(el := True)) els)"

definition GetElementsInRect ::
  "nat \<Rightarrow> heap \<Rightarrow> addr \<Rightarrow> number \<Rightarrow> number \<Rightarrow> number \<Rightarrow> number \<Rightarrow> bool \<Rightarrow>
   error + elem list" where
  "GetElementsInRect fuel s this x y width height filterDuplicates =
     (case GetElementsInRect_loop fuel s x y width height [this] [] of
        Inl e \<Rightarrow> Inl e
      | Inr elements \<Rightarrow>
          Inr (if \<not> filterDuplicates then elements
               else filter_seen (\<lambda>_. False) elements))"

section \<open>Resizing\<close>

text \<open>\<open>x ?? this._x\<close>: an omitted argument is \<open>None\<close>.\<close>

definition CreateResized ::
  "nat \<Rightarrow> (elem \<Rightarrow> shape) \<Rightarrow> heap \<Rightarrow> addr \<Rightarrow>
   number option \<Rightarrow> number option \<Rightarrow> number option \<Rightarrow> number option \<Rightarrow> error + (addr \<times> heap)" where
  "CreateResized fuel G s this x y width height =
     (let t = nodes s this in
      QuadTree_new fuel G s
        (case x of None \<Rightarrow> t_x t | Some v \<Rightarrow> v)
        (case y of None \<Rightarrow> t_y t | Some v \<Rightarrow> v)
        (case width of None \<Rightarrow> t_width t | Some v \<Rightarrow> v)
        (case height of None \<Rightarrow> t_height t | Some v \<Rightarrow> v)
        (t_maxElements t) (t_maxDepth t) (t_elements t) None)"

section \<open>Callers\<close>

text \<open>
  A caller holds a tree and the elements, calls the three mutating operations on nodes
  of the tree, and may change the geometry of an element in place between calls
  (\<open>Move\<close>).  Calling a method on something that is not an object is a \<open>TypeError\<close>.
  \<open>exec\<close> runs a sequence of operations and collects the results of the calls.
\<close>

datatype op = Add addr elem | Remove addr elem | Update addr elem | Move elem shape

fun exec ::
  "nat \<Rightarrow> op list \<Rightarrow> (elem \<Rightarrow> shape) \<Rightarrow> heap \<Rightarrow> error + (bool list \<times> (elem \<Rightarrow> shape) \<times> heap)"
where
  "exec fuel [] G s = Inr ([], G, s)"
| "exec fuel (Move e sh # ops) G s = exec fuel ops (G(e := sh)) s"
| "exec fuel (Add a e # ops) G s =
     (if \<not> a < next_addr s then Inl TypeError
      else case AddElement fuel G s a e of
        Inl x \<Rightarrow> Inl x
      | Inr (b, s') \<Rightarrow>
          (case exec fuel ops G s' of
             Inl x \<Rightarrow> Inl x
           | Inr (bs, r) \<Rightarrow> Inr (b # bs, r)))"
| "exec fuel (Remove a e # ops) G s =
     (if \<not> a < next_addr s then Inl TypeError
      else case RemoveElement s a e of
        Inl x \<Rightarrow> Inl x
      | Inr (b, s') \<Rightarrow>
          (case exec fuel ops G s' of
             Inl x \<Rightarrow> Inl x
           | Inr (bs, r) \<Rightarrow> Inr (b # bs, r)))"
| "exec fuel (Update a e # ops) G s =
     (if \<not> a < next_addr s then Inl TypeError
      else case UpdateElement fuel G s a e of
        Inl x \<Rightarrow> Inl x
      | Inr (b, s') \<Rightarrow>
          (case exec fuel ops G s' of
             Inl x \<Rightarrow> Inl x
           | Inr (bs, r) \<Rightarrow> Inr (b # bs, r)))"

text \<open>The heap before any tree has been constructed.\<close>

definition empty_heap :: heap where
  "empty_heap = \<lparr>nodes = (\<lambda>_. new_object (Fin 0) (Fin 0) (Fin 0) (Fin 0) 0 0 None), next_addr = 0\<rparr>"

text \<open>
  \<open>new QuadTree(x, y, width, height, maxElements, maxDepth, initialElements)\<close> as the
  first object of a program, followed by a sequence of operations.
\<close>

definition program ::
  "nat \<Rightarrow> (elem \<Rightarrow> shape) \<Rightarrow> number \<Rightarrow> number \<Rightarrow> number \<Rightarrow> number \<Rightarrow> int \<Rightarrow> int \<Rightarrow> elem list \<Rightarrow>
   op list \<Rightarrow> error + (bool list \<times> (elem \<Rightarrow> shape) \<times> heap)" where
  "program fuel G x y width height maxElements maxDepth initialElements ops =
     (case QuadTree_new fuel G empty_heap x y width height maxElements maxDepth
             initialElements None of
        Inl e \<Rightarrow> Inl e
      | Inr (_, s) \<Rightarrow> exec fuel ops G s)"

section \<open>Example inputs\<close>

definition G_points :: "elem \<Rightarrow> shape" where
  "G_points = (\<lambda>_. Unknown)
     (1 := Point (Fin 10) (Fin 10), 2 := Point (Fin 20) (Fin 20),
      3 := Point (Fin 30) (Fin 30), 4 := Point (Fin 200) (Fin 200),
      5 := Circle (Fin 50) (Fin 50) (Fin 60))"

text \<open>The heap of a program, or the empty heap if the program did not return.\<close>

definition heap_of :: "error + (bool list \<times> (elem \<Rightarrow> shape) \<times> heap) \<Rightarrow> heap" where
  "heap_of r = (case r of Inl _ \<Rightarrow> empty_heap | Inr (_, _, s) \<Rightarrow> s)"

definition results_of :: "error + (bool list \<times> (elem \<Rightarrow> shape) \<times> heap) \<Rightarrow> bool list option" where
  "results_of r = (case r of Inl _ \<Rightarrow> None | Inr (bs, _, _) \<Rightarrow> Some bs)"

definition returns :: "error + 'a \<Rightarrow> bool" where
  "returns r = (case r of Inl _ \<Rightarrow> False | Inr _ \<Rightarrow> True)"

text \<open>A fresh root over \<open>(0, 0, 100, 100)\<close> with the default capacity and no depth limit.\<close>

definition fresh_tree :: heap where
  "fresh_tree = heap_of (program 2 G_points (Fin 0) (Fin 0) (Fin 100) (Fin 100) 50 (-1) [] [])"

text \<open>
  A root over \<open>(0, 0, 100, 100)\<close> with capacity 0 and depth limit 1: the first point
  inserted splits it into four quadrants, which cannot split further.  Then a circle
  overlapping all four quadrants is inserted.  The same root before the insertions; a
  fresh root into which two points are inserted, and one into which one point is
  inserted twice.
\<close>

definition quadrants_tree :: heap where
  "quadrants_tree = heap_of (program 9 G_points (Fin 0) (Fin 0) (Fin 100) (Fin 100) 0 1 [] [Add 0 1, Add 0 5])"

definition limited_tree :: heap where
  "limited_tree = heap_of (program 2 G_points (Fin 0) (Fin 0) (Fin 100) (Fin 100) 0 1 [] [])"

definition pair_tree :: heap where
  "pair_tree = heap_of (program 4 G_points (Fin 0) (Fin 0) (Fin 100) (Fin 100) 50 (-1) []
                 [Add 0 1, Add 0 2])"

definition twice_tree :: heap where
  "twice_tree = heap_of (program 4 G_points (Fin 0) (Fin 0) (Fin 100) (Fin 100) 50 (-1) [] [Add 0 1, Add 0 1])"

section \<open>The older copy of the tree\<close>

text \<open>
  The repository holds a second, older copy of \<open>QuadTree.js\<close> (lines 1 to 326 of the
  source file).  Its \<open>AddElement\<close> is recursive, keeps no owner index, stores the last
  claiming node in \<open>element.parent\<close> and subdivides with the test
  \<open>this._elements.length >= this._maxElements\<close>.  Its state is the heap together with
  the \<open>parent\<close> fields of the elements.
\<close>

type_synonym old_state = "heap \<times> (elem \<Rightarrow> addr option)"

definition may_split_old :: "QuadTree \<Rightarrow> bool" where
  "may_split_old t =
     ((t_maxDepth t < 0 \<or> t_depth t < t_maxDepth t) \<and>
      int (length (t_elements t)) \<ge> t_maxElements t)"

function (sequential) AddElement_old ::
      "nat \<Rightarrow> (elem \<Rightarrow> shape) \<Rightarrow> old_state \<Rightarrow> addr \<Rightarrow> elem \<Rightarrow> error + (bool \<times> old_state)"
  and AddElement_children_old ::
      "nat \<Rightarrow> (elem \<Rightarrow> shape) \<Rightarrow> old_state \<Rightarrow> addr list \<Rightarrow> elem \<Rightarrow> error + old_state"
  and QuadTree_new_old ::
      "nat \<Rightarrow> (elem \<Rightarrow> shape) \<Rightarrow> old_state \<Rightarrow> number \<Rightarrow> number \<Rightarrow> number \<Rightarrow> number \<Rightarrow> int \<Rightarrow> int \<Rightarrow>
       elem list \<Rightarrow> addr option \<Rightarrow> error + (addr \<times> old_state)"
  and QuadTree_init_old ::
      "nat \<Rightarrow> (elem \<Rightarrow> shape) \<Rightarrow> addr \<Rightarrow> elem list \<Rightarrow> old_state \<Rightarrow> error + old_state"
where
  "AddElement_old 0 G st this element = Inl OutOfFuel"
| "AddElement_old (Suc k) G (s, ps) this element =
     (if \<not> inside G element (nodes s this) then Inr (False, (s, ps))
      else
        let ps1 = ps(element := Some this);
            s1 = push_element this element s;
            t = nodes s1 this
        in
        if IsSplit t then
          (case AddElement_children_old k G (s1, ps1) (t_children t) element of
             Inl e \<Rightarrow> Inl e
           | Inr st' \<Rightarrow> Inr (True, st'))
        else if may_split_old t then
          (let halfWidth = nhalf (t_width t); halfHeight = nhalf (t_height t) in
           case QuadTree_new_old k G (s1, ps1) (t_x t) (t_y t) halfWidth halfHeight
                  (t_maxElements t) (t_maxDepth t) [] (Some this) of
             Inl e \<Rightarrow> Inl e
           | Inr (c1, st2) \<Rightarrow>
           (case QuadTree_new_old k G st2 (nadd (t_x t) halfWidth) (t_y t) halfWidth halfHeight
                  (t_maxElements t) (t_maxDepth t) [] (Some this) of
             Inl e \<Rightarrow> Inl e
           | Inr (c2, st3) \<Rightarrow>
           (case QuadTree_new_old k G st3 (t_x t) (nadd (t_y t) halfHeight) halfWidth halfHeight
                  (t_maxElements t) (t_maxDepth t) [] (Some this) of
             Inl e \<Rightarrow> Inl e
           | Inr (c3, st4) \<Rightarrow>
           (case QuadTree_new_old k G st4 (nadd (t_x t) halfWidth) (nadd (t_y t) halfHeight)
                  halfWidth halfHeight (t_maxElements t) (t_maxDepth t) [] (Some this) of
             Inl e \<Rightarrow> Inl e
           | Inr (c4, (s5, ps5)) \<Rightarrow>
               Inr (True, (set_children this [c1, c2, c3, c4] s5, ps5))))))
        else Inr (True, (s1, ps1)))"
| "AddElement_children_old 0 G st cs element = Inl OutOfFuel"
| "AddElement_children_old (Suc k) G st [] element = Inr st"
| "AddElement_children_old (Suc k) G st (c # cs) element =
     (case AddElement_old k G st c element of
        Inl e \<Rightarrow> Inl e
      | Inr (_, st') \<Rightarrow> AddElement_children_old k G st' cs element)"
| "QuadTree_new_old 0 G st x y width height maxElements maxDepth initialElements parent =
     Inl OutOfFuel"
| "QuadTree_new_old (Suc k) G (s, ps) x y width height maxElements maxDepth
      initialElements parent =
     (let this = next_addr s;
          s0 = alloc (new_object x y width height maxElements maxDepth parent) s
      in
      case parent of
        None \<Rightarrow>
          (case QuadTree_init_old k G this initialElements (s0, ps) of
             Inl e \<Rightarrow> Inl e
           | Inr st' \<Rightarrow> Inr (this, st'))
      | Some p \<Rightarrow>
          (let s1 = init_child this p s0 in
           case QuadTree_init_old k G this (t_elements (nodes s1 p)) (s1, ps) of
             Inl e \<Rightarrow> Inl e
           | Inr st' \<Rightarrow> Inr (this, st')))"
| "QuadTree_init_old 0 G this els st = Inl OutOfFuel"
| "QuadTree_init_old (Suc k) G this [] st = Inr st"
| "QuadTree_init_old (Suc k) G this (el # els) st =
     (case AddElement_old k G st this el of
        Inl e \<Rightarrow> Inl e
      | Inr (_, st') \<Rightarrow> QuadTree_init_old k G this els st')"
  by pat_completeness auto

termination
  by (relation "measure (\<lambda>v. case v of
         Inl (Inl a) \<Rightarrow> fst a | Inl (Inr b) \<Rightarrow> fst b
       | Inr (Inl c) \<Rightarrow> fst c | Inr (Inr d) \<Rightarrow> fst d)") simp_all

text \<open>
  A fresh tree of the older copy followed by insertions into its root; the result is
  whether the root is split at the end.
\<close>

fun adds_old :: "nat \<Rightarrow> (elem \<Rightarrow> shape) \<Rightarrow> old_state \<Rightarrow> addr \<Rightarrow> elem list \<Rightarrow> error + old_state" where
  "adds_old fuel G st this [] = Inr st"
| "adds_old fuel G st this (e # es) =
     (case AddElement_old fuel G st this e of
        Inl x \<Rightarrow> Inl x
      | Inr (_, st') \<Rightarrow> adds_old fuel G st' this es)"

definition root_split_old ::
  "nat \<Rightarrow> (elem \<Rightarrow> shape) \<Rightarrow> number \<Rightarrow> number \<Rightarrow> number \<Rightarrow> number \<Rightarrow> int \<Rightarrow> int \<Rightarrow> elem list \<Rightarrow>
   error + bool" where
  "root_split_old fuel G x y width height maxElements maxDepth es =
     (case QuadTree_new_old fuel G (empty_heap, \<lambda>_. None) x y width height
             maxElements maxDepth [] None of
        Inl e \<Rightarrow> Inl e
      | Inr (r, st) \<Rightarrow>
          (case adds_old fuel G st r es of
             Inl e \<Rightarrow> Inl e
           | Inr (s, _) \<Rightarrow> Inr (IsSplit (nodes s r))))"

section \<open>Specification-level notions\<close>

text \<open>
  Clamping a coordinate into a span, and the squared distance from a circle's centre to
  the closest point of a rectangle, written from the specification's words.
\<close>

definition clamp_spec :: "real \<Rightarrow> real \<Rightarrow> real \<Rightarrow> real" where
  "clamp_spec lo hi v = max lo (min hi v)"

definition dist_spec :: "real \<Rightarrow> real \<Rightarrow> real \<Rightarrow> real" where
  "dist_spec c lo extent = c - clamp_spec lo (lo + extent) c"

definition sqDistance_spec :: "real \<Rightarrow> real \<Rightarrow> real \<Rightarrow> real \<Rightarrow> real \<Rightarrow> real \<Rightarrow> real" where
  "sqDistance_spec cx cy x y width height =
     dist_spec cx x width * dist_spec cx x width +
     dist_spec cy y height * dist_spec cy y height"

text \<open>A real number that is a double: rounding leaves it as it is.\<close>

definition exact :: "real \<Rightarrow> bool" where
  "exact v = (rnd v = Fin v)"

text \<open>
  Deduplication that keeps the first occurrence of every element, in the order of the
  first occurrences.
\<close>

definition dedup_first :: "elem list \<Rightarrow> elem list" where
  "dedup_first xs = rev (remdups (rev xs))"

section \<open>Rounding\<close>

lemma pow2_pos [simp]: "0 < pow2 k"
  by (simp add: pow2_def)

lemma pow2_not_le [simp]: "\<not> pow2 k \<le> 0"
  using pow2_pos [of k] by linarith

lemma pow2_abs [simp]: "\<bar>pow2 k\<bar> = pow2 k"
  using pow2_pos [of k] by linarith

lemma pow2_neq0 [simp]: "pow2 k \<noteq> 0"
  using pow2_pos [of k] by linarith

lemma pow2_powr: "pow2 k = 2 powr real_of_int k"
  by (simp add: pow2_def powr_real_of_int inverse_eq_divide)

lemma pow2_add: "pow2 (j + k) = pow2 j * pow2 k"
  by (simp add: pow2_powr powr_add)

lemma pow2_diff: "pow2 (j - k) = pow2 j / pow2 k"
  by (simp add: pow2_powr powr_diff)

lemma pow2_nat: "0 \<le> k \<Longrightarrow> pow2 k = of_int (2 ^ nat k)"
  by (simp add: pow2_def)

lemma pow2_mono: "j \<le> k \<Longrightarrow> pow2 j \<le> pow2 k"
  by (simp add: pow2_powr)

lemma pow2_strict_mono: "j < k \<Longrightarrow> pow2 j < pow2 k"
  by (simp add: pow2_powr)

lemma round_even_of_int [simp]: "round_even (of_int n) = n"
  by (simp add: round_even_def)

lemma ulp_exp_eq:
  assumes "pow2 e \<le> \<bar>v\<bar>" and "\<bar>v\<bar> < pow2 (e + 1)"
  shows "ulp_exp v = max (e - 52) (- 1074)"
proof -
  have pos: "0 < \<bar>v\<bar>" using assms(1) pow2_pos [of e] by linarith
  have "\<lfloor>log 2 \<bar>v\<bar>\<rfloor> = e"
    using assms pos by (subst floor_log_eq_powr_iff) (simp_all add: pow2_powr)
  then show ?thesis by (simp add: ulp_exp_def)
qed

lemma ulp_exp_le:
  assumes "v \<noteq> 0" and "\<bar>v\<bar> < pow2 (j + 53)" and "- 1074 \<le> j"
  shows "ulp_exp v \<le> j"
proof -
  have pos: "0 < \<bar>v\<bar>" using assms(1) by simp
  have "log 2 \<bar>v\<bar> < real_of_int (j + 53)"
    using assms(2) pos by (simp add: pow2_powr log_less_iff)
  then have "\<lfloor>log 2 \<bar>v\<bar>\<rfloor> < j + 53"
    by (simp add: floor_less_iff)
  then show ?thesis using assms(3) by (simp add: ulp_exp_def)
qed

text \<open>A value with a 53-bit significand and an exponent in range rounds to itself.\<close>

lemma rnd_exact:
  assumes v: "v = of_int m * pow2 j" and m: "\<bar>m\<bar> < 2 ^ 53"
      and j: "- 1074 \<le> j" "j \<le> 970"
  shows "rnd v = Fin v"
proof (cases "v = 0")
  case True
  then show ?thesis by (simp add: rnd_def)
next
  case False
  have "\<bar>v\<bar> = of_int \<bar>m\<bar> * pow2 j"
    by (simp add: v abs_mult)
  also have "\<dots> < 2 ^ 53 * pow2 j"
  proof -
    have "real_of_int \<bar>m\<bar> < real_of_int (2 ^ 53)" using m by (simp only: of_int_less_iff)
    then show ?thesis by simp
  qed
  also have "\<dots> = pow2 (j + 53)"
  proof -
    have "pow2 53 = 2 ^ 53" by (simp add: pow2_def)
    then show ?thesis by (simp add: pow2_add)
  qed
  finally have bound: "\<bar>v\<bar> < pow2 (j + 53)" .
  let ?k = "ulp_exp v"
  have kj: "?k \<le> j" using False bound j(1) by (rule ulp_exp_le)
  have "v / pow2 ?k = of_int m * pow2 (j - ?k)"
    by (simp add: v pow2_diff)
  also have "\<dots> = of_int (m * 2 ^ nat (j - ?k))"
    using kj by (simp add: pow2_nat)
  finally have q: "v / pow2 ?k = of_int (m * 2 ^ nat (j - ?k))" .
  have "of_int (round_even (v / pow2 ?k)) * pow2 ?k = (v / pow2 ?k) * pow2 ?k"
    unfolding q round_even_of_int ..
  then have r: "of_int (round_even (v / pow2 ?k)) * pow2 ?k = v"
    by simp
  have "pow2 (j + 53) \<le> pow2 1023" using j(2) by (intro pow2_mono) simp
  also have "\<dots> < 2 ^ 1024" by (simp add: pow2_def)
  finally have "\<bar>v\<bar> < 2 ^ 1024" using bound by linarith
  then have "\<not> 2 ^ 1024 \<le> v" "\<not> v \<le> - (2 ^ 1024)" by linarith+
  then show ?thesis using False r by (simp add: rnd_def Let_def)
qed

lemma rnd_of_int:
  assumes "\<bar>m\<bar> \<le> 2 ^ 53"
  shows "rnd (of_int m) = Fin (of_int m)"
proof (cases "\<bar>m\<bar> = 2 ^ 53")
  case True
  then have "m = 2 ^ 53 \<or> m = - (2 ^ 53)" by linarith
  then have "of_int m = of_int (m div 2) * pow2 1" "\<bar>m div 2\<bar> < 2 ^ 53"
    by (auto simp: pow2_def)
  then show ?thesis using rnd_exact [of "of_int m" "m div 2" 1] by simp
next
  case False
  with assms have "\<bar>m\<bar> < 2 ^ 53" by linarith
  then show ?thesis using rnd_exact [of "of_int m" m 0] by (simp add: pow2_def)
qed

lemma rnd_numeral [simp]:
  "rnd 0 = Fin 0"
  "rnd 1 = Fin 1"
  "(numeral n :: int) \<le> 2 ^ 53 \<Longrightarrow> rnd (numeral n) = Fin (numeral n)"
  "(numeral n :: int) \<le> 2 ^ 53 \<Longrightarrow> rnd (- numeral n) = Fin (- numeral n)"
  using rnd_of_int [of 0] rnd_of_int [of 1] rnd_of_int [of "numeral n"]
        rnd_of_int [of "- numeral n"]
  by simp_all

lemma rnd_half_numeral [simp]:
  "(numeral n :: int) < 2 ^ 53 \<Longrightarrow> rnd (numeral n / 2) = Fin (numeral n / 2)"
  using rnd_exact [of "numeral n / 2" "numeral n" "-1"] by (simp add: pow2_def)

text \<open>Rounding a value whose binade is known.\<close>

lemma rnd_eval:
  assumes "pow2 e \<le> \<bar>v\<bar>" and "\<bar>v\<bar> < pow2 (e + 1)"
  shows "rnd v =
     (let k = max (e - 52) (- 1074);
          r = of_int (round_even (v / pow2 k)) * pow2 k
      in if 2 ^ 1024 \<le> r then PInf else if r \<le> - (2 ^ 1024) then NInf else Fin r)"
proof -
  have "v \<noteq> 0" using assms(1) pow2_pos [of e] by auto
  then show ?thesis by (simp add: rnd_def ulp_exp_eq [OF assms])
qed

section \<open>Runs with fuel are derivations\<close>

lemma run_sound_aux:
  "(\<forall>G e rt pool s s'. AddElement_loop k G e rt pool s = Inr s' \<longrightarrow> loop_run G e rt pool s s') \<and>
   (\<forall>G s x y w h mE mD inits parent a s'.
      QuadTree_new k G s x y w h mE mD inits parent = Inr (a, s') \<longrightarrow>
      new_run G s (new_object x y w h mE mD parent) inits a s') \<and>
   (\<forall>G this els s s'. QuadTree_init k G this els s = Inr s' \<longrightarrow> init_run G this els s s') \<and>
   (\<forall>G s this e b s'. AddElement k G s this e = Inr (b, s') \<longrightarrow> add_run G s this e s')"
proof (induction k)
  case 0
  show ?case by simp
next
  case (Suc k)
  have IHl: "\<And>G e rt pool s s'. AddElement_loop k G e rt pool s = Inr s' \<Longrightarrow> loop_run G e rt pool s s'"
    using Suc by auto
  have IHn: "\<And>G s x y w h mE mD inits parent a s'.
      QuadTree_new k G s x y w h mE mD inits parent = Inr (a, s') \<Longrightarrow>
      new_run G s (new_object x y w h mE mD parent) inits a s'"
    using Suc by auto
  have IHi: "\<And>G this els s s'. QuadTree_init k G this els s = Inr s' \<Longrightarrow> init_run G this els s s'"
    using Suc by auto
  have IHa: "\<And>G s this e b s'. AddElement k G s this e = Inr (b, s') \<Longrightarrow> add_run G s this e s'"
    using Suc by auto
  have L: "loop_run G e rt pool s s'" if "AddElement_loop (Suc k) G e rt pool s = Inr s'" for G e rt pool s s'
  proof (cases pool rule: rev_cases)
    case Nil
    with that show ?thesis by (simp add: loop_done)
  next
    case (snoc pool' tree)
    show ?thesis
      using that unfolding snoc
      by (auto simp: Let_def split: if_splits sum.splits prod.splits
               intro: loop_skip loop_descend loop_stay loop_split IHl IHn)
  qed
  have N: "new_run G s (new_object x y w h mE mD parent) inits a s'"
    if "QuadTree_new (Suc k) G s x y w h mE mD inits parent = Inr (a, s')" for G s x y w h mE mD inits parent a s'
    using that
    by (auto simp: Let_def split: option.splits sum.splits intro: new_root new_child IHi)
  have I: "init_run G this els s s'" if "QuadTree_init (Suc k) G this els s = Inr s'" for G this els s s'
    using that by (cases els) (auto split: sum.splits prod.splits intro: init_nil init_cons IHa IHi)
  have A: "add_run G s this e s'" if "AddElement (Suc k) G s this e = Inr (b, s')" for G s this e b s'
    using that by (auto simp: Let_def split: sum.splits prod.splits option.splits intro: add IHl)
  from L N I A show ?case by blast
qed

lemma AddElement_loop_run:
  "AddElement_loop k G e rt pool s = Inr s' \<Longrightarrow> loop_run G e rt pool s s'"
  using run_sound_aux [of k] by auto

lemma QuadTree_new_run:
  "QuadTree_new k G s x y w h mE mD inits parent = Inr (a, s') \<Longrightarrow>
   new_run G s (new_object x y w h mE mD parent) inits a s'"
  using run_sound_aux [of k] by auto

lemma QuadTree_init_run:
  "QuadTree_init k G this els s = Inr s' \<Longrightarrow> init_run G this els s s'"
  using run_sound_aux [of k] by auto

lemma AddElement_run:
  "AddElement k G s this e = Inr (b, s') \<Longrightarrow> add_run G s this e s'"
  using run_sound_aux [of k] by auto

section \<open>Effects of the heap primitives\<close>

lemma upd_simps [simp]:
  "next_addr (upd a f s) = next_addr s"
  "nodes (upd a f s) b = (if b = a then f (nodes s a) else nodes s b)"
  by (auto simp: upd_def split: option.splits)

lemma push_element_simps [simp]:
  "next_addr (push_element tree e s) = next_addr s"
  "t_x (nodes (push_element tree e s) a) = t_x (nodes s a)"
  "t_y (nodes (push_element tree e s) a) = t_y (nodes s a)"
  "t_width (nodes (push_element tree e s) a) = t_width (nodes s a)"
  "t_height (nodes (push_element tree e s) a) = t_height (nodes s a)"
  "t_maxElements (nodes (push_element tree e s) a) = t_maxElements (nodes s a)"
  "t_root (nodes (push_element tree e s) a) = t_root (nodes s a)"
  "t_depth (nodes (push_element tree e s) a) = t_depth (nodes s a)"
  "t_parent (nodes (push_element tree e s) a) = t_parent (nodes s a)"
  "t_maxDepth (nodes (push_element tree e s) a) = t_maxDepth (nodes s a)"
  "t_children (nodes (push_element tree e s) a) = t_children (nodes s a)"
  "t_elementsParents (nodes (push_element tree e s) a) = t_elementsParents (nodes s a)"
  "t_elements (nodes (push_element tree e s) a) = (if a = tree then t_elements (nodes s a) @ [e] else t_elements (nodes s a))"
  "elParents_of (push_element tree e s) r x = elParents_of s r x"
  by (auto simp: push_element_def upd_def elParents_of_def split: option.splits)

lemma set_elParents_simps [simp]:
  "next_addr (set_elParents rt e v s) = next_addr s"
  "t_x (nodes (set_elParents rt e v s) a) = t_x (nodes s a)"
  "t_y (nodes (set_elParents rt e v s) a) = t_y (nodes s a)"
  "t_width (nodes (set_elParents rt e v s) a) = t_width (nodes s a)"
  "t_height (nodes (set_elParents rt e v s) a) = t_height (nodes s a)"
  "t_maxElements (nodes (set_elParents rt e v s) a) = t_maxElements (nodes s a)"
  "t_root (nodes (set_elParents rt e v s) a) = t_root (nodes s a)"
  "t_depth (nodes (set_elParents rt e v s) a) = t_depth (nodes s a)"
  "t_parent (nodes (set_elParents rt e v s) a) = t_parent (nodes s a)"
  "t_maxDepth (nodes (set_elParents rt e v s) a) = t_maxDepth (nodes s a)"
  "t_children (nodes (set_elParents rt e v s) a) = t_children (nodes s a)"
  "t_elements (nodes (set_elParents rt e v s) a) = t_elements (nodes s a)"
  "(t_elementsParents (nodes (set_elParents rt e v s) a) = None) = (t_elementsParents (nodes s a) = None)"
  "elParents_of (set_elParents rt e v s) r x = (if r = rt \<and> x = e \<and> t_elementsParents (nodes s rt) \<noteq> None then (case v of None \<Rightarrow> [] | Some l \<Rightarrow> l) else elParents_of s r x)"
  by (auto simp: set_elParents_def upd_def elParents_of_def split: option.splits)

lemma record_element_simps [simp]:
  "next_addr (record_element rt e tree s) = next_addr s"
  "t_x (nodes (record_element rt e tree s) a) = t_x (nodes s a)"
  "t_y (nodes (record_element rt e tree s) a) = t_y (nodes s a)"
  "t_width (nodes (record_element rt e tree s) a) = t_width (nodes s a)"
  "t_height (nodes (record_element rt e tree s) a) = t_height (nodes s a)"
  "t_maxElements (nodes (record_element rt e tree s) a) = t_maxElements (nodes s a)"
  "t_root (nodes (record_element rt e tree s) a) = t_root (nodes s a)"
  "t_depth (nodes (record_element rt e tree s) a) = t_depth (nodes s a)"
  "t_parent (nodes (record_element rt e tree s) a) = t_parent (nodes s a)"
  "t_maxDepth (nodes (record_element rt e tree s) a) = t_maxDepth (nodes s a)"
  "t_children (nodes (record_element rt e tree s) a) = t_children (nodes s a)"
  "t_elements (nodes (record_element rt e tree s) a) = (if a = tree then t_elements (nodes s a) @ [e] else t_elements (nodes s a))"
  "(t_elementsParents (nodes (record_element rt e tree s) a) = None) = (t_elementsParents (nodes s a) = None)"
  "elParents_of (record_element rt e tree s) r x = (if r = rt \<and> x = e \<and> t_elementsParents (nodes s rt) \<noteq> None then elParents_of s rt e @ [tree] else elParents_of s r x)"
  by (auto simp: record_element_def push_elParents_def split: option.splits)

lemma set_children_simps [simp]:
  "next_addr (set_children tree cs s) = next_addr s"
  "t_x (nodes (set_children tree cs s) a) = t_x (nodes s a)"
  "t_y (nodes (set_children tree cs s) a) = t_y (nodes s a)"
  "t_width (nodes (set_children tree cs s) a) = t_width (nodes s a)"
  "t_height (nodes (set_children tree cs s) a) = t_height (nodes s a)"
  "t_maxElements (nodes (set_children tree cs s) a) = t_maxElements (nodes s a)"
  "t_root (nodes (set_children tree cs s) a) = t_root (nodes s a)"
  "t_depth (nodes (set_children tree cs s) a) = t_depth (nodes s a)"
  "t_parent (nodes (set_children tree cs s) a) = t_parent (nodes s a)"
  "t_maxDepth (nodes (set_children tree cs s) a) = t_maxDepth (nodes s a)"
  "t_elements (nodes (set_children tree cs s) a) = t_elements (nodes s a)"
  "t_elementsParents (nodes (set_children tree cs s) a) = t_elementsParents (nodes s a)"
  "t_children (nodes (set_children tree cs s) a) = (if a = tree then cs else t_children (nodes s a))"
  "elParents_of (set_children tree cs s) r x = elParents_of s r x"
  by (auto simp: set_children_def upd_def elParents_of_def split: option.splits)

lemma remove_from_simps [simp]:
  "next_addr (remove_from tree e s) = next_addr s"
  "t_x (nodes (remove_from tree e s) a) = t_x (nodes s a)"
  "t_y (nodes (remove_from tree e s) a) = t_y (nodes s a)"
  "t_width (nodes (remove_from tree e s) a) = t_width (nodes s a)"
  "t_height (nodes (remove_from tree e s) a) = t_height (nodes s a)"
  "t_maxElements (nodes (remove_from tree e s) a) = t_maxElements (nodes s a)"
  "t_root (nodes (remove_from tree e s) a) = t_root (nodes s a)"
  "t_depth (nodes (remove_from tree e s) a) = t_depth (nodes s a)"
  "t_parent (nodes (remove_from tree e s) a) = t_parent (nodes s a)"
  "t_maxDepth (nodes (remove_from tree e s) a) = t_maxDepth (nodes s a)"
  "t_children (nodes (remove_from tree e s) a) = t_children (nodes s a)"
  "t_elementsParents (nodes (remove_from tree e s) a) = t_elementsParents (nodes s a)"
  "t_elements (nodes (remove_from tree e s) a) = (if a = tree then splice1 (t_elements (nodes s a)) (indexOf (t_elements (nodes s a)) e) else t_elements (nodes s a))"
  "elParents_of (remove_from tree e s) r x = elParents_of s r x"
  by (auto simp: remove_from_def upd_def elParents_of_def split: option.splits)

lemma pop_elParents_simps [simp]:
  "next_addr (pop_elParents rt e s) = next_addr s"
  "t_x (nodes (pop_elParents rt e s) a) = t_x (nodes s a)"
  "t_y (nodes (pop_elParents rt e s) a) = t_y (nodes s a)"
  "t_width (nodes (pop_elParents rt e s) a) = t_width (nodes s a)"
  "t_height (nodes (pop_elParents rt e s) a) = t_height (nodes s a)"
  "t_maxElements (nodes (pop_elParents rt e s) a) = t_maxElements (nodes s a)"
  "t_root (nodes (pop_elParents rt e s) a) = t_root (nodes s a)"
  "t_depth (nodes (pop_elParents rt e s) a) = t_depth (nodes s a)"
  "t_parent (nodes (pop_elParents rt e s) a) = t_parent (nodes s a)"
  "t_maxDepth (nodes (pop_elParents rt e s) a) = t_maxDepth (nodes s a)"
  "t_children (nodes (pop_elParents rt e s) a) = t_children (nodes s a)"
  "t_elements (nodes (pop_elParents rt e s) a) = t_elements (nodes s a)"
  "(t_elementsParents (nodes (pop_elParents rt e s) a) = None) = (t_elementsParents (nodes s a) = None)"
  "elParents_of (pop_elParents rt e s) r x = (if r = rt \<and> x = e then butlast (elParents_of s rt e) else elParents_of s r x)"
  by (auto simp: pop_elParents_def elParents_of_def set_elParents_def upd_def split: option.splits)

lemma alloc_simps [simp]:
  "next_addr (alloc obj s) = Suc (next_addr s)"
  "nodes (alloc obj s) a = (if a = next_addr s then obj else nodes s a)"
  by (auto simp: alloc_def split: option.splits)

lemma init_root_simps [simp]:
  "next_addr (init_root this s) = next_addr s"
  "nodes (init_root this s) a = (if a = this then (nodes s this)\<lparr>t_elementsParents := Some Map.empty\<rparr> else nodes s a)"
  by (auto simp: init_root_def upd_def split: option.splits)

lemma init_child_simps [simp]:
  "next_addr (init_child this p s) = next_addr s"
  "nodes (init_child this p s) a = (if a = this then (nodes s this)\<lparr>t_root := Some (rootTree s p), t_depth := t_depth (nodes s p) + 1\<rparr> else nodes s a)"
  by (auto simp: init_child_def upd_def split: option.splits)

lemma prim_derived_simps [simp]:
  "rootTree (push_element tree e s) a = rootTree s a"
  "inside G x (nodes (push_element tree e s) a) = inside G x (nodes s a)"
  "IsSplit (nodes (push_element tree e s) a) = IsSplit (nodes s a)"
  "rootTree (set_elParents rt e v s) a = rootTree s a"
  "inside G x (nodes (set_elParents rt e v s) a) = inside G x (nodes s a)"
  "IsSplit (nodes (set_elParents rt e v s) a) = IsSplit (nodes s a)"
  "rootTree (record_element rt e tree s) a = rootTree s a"
  "inside G x (nodes (record_element rt e tree s) a) = inside G x (nodes s a)"
  "IsSplit (nodes (record_element rt e tree s) a) = IsSplit (nodes s a)"
  "rootTree (set_children tree cs s) a = rootTree s a"
  "inside G x (nodes (set_children tree cs s) a) = inside G x (nodes s a)"
  "rootTree (remove_from tree e s) a = rootTree s a"
  "inside G x (nodes (remove_from tree e s) a) = inside G x (nodes s a)"
  "IsSplit (nodes (remove_from tree e s) a) = IsSplit (nodes s a)"
  "rootTree (pop_elParents rt e s) a = rootTree s a"
  "inside G x (nodes (pop_elParents rt e s) a) = inside G x (nodes s a)"
  "IsSplit (nodes (pop_elParents rt e s) a) = IsSplit (nodes s a)"
  by (simp_all add: rootTree_def inside_def IsSplit_def)

section \<open>Heaps only grow\<close>

definition fixed_fields ::
  "QuadTree \<Rightarrow> number \<times> number \<times> number \<times> number \<times> int \<times> addr option \<times> int \<times> addr option \<times> int" where
  "fixed_fields t =
     (t_x t, t_y t, t_width t, t_height t, t_maxElements t, t_root t, t_depth t,
      t_parent t, t_maxDepth t)"

definition extends :: "heap \<Rightarrow> heap \<Rightarrow> bool" where
  "extends s s' \<longleftrightarrow>
     next_addr s \<le> next_addr s' \<and>
     (\<forall>a < next_addr s.
        fixed_fields (nodes s' a) = fixed_fields (nodes s a) \<and>
        prefix (t_elements (nodes s a)) (t_elements (nodes s' a)) \<and>
        (t_elementsParents (nodes s' a) = None \<longleftrightarrow> t_elementsParents (nodes s a) = None) \<and>
        (\<forall>e. prefix (elParents_of s a e) (elParents_of s' a e)) \<and>
        (t_children (nodes s a) \<noteq> [] \<longrightarrow> t_children (nodes s' a) = t_children (nodes s a)))"

lemma extends_refl [simp]: "extends s s"
  by (simp add: extends_def)

lemma extends_trans: "extends s s1 \<Longrightarrow> extends s1 s2 \<Longrightarrow> extends s s2"
  unfolding extends_def
  apply (intro conjI allI impI)
       apply simp
      apply (metis less_le_trans)
     apply (meson less_le_trans prefix_order.order_trans)
    apply (metis less_le_trans)
   apply (meson less_le_trans prefix_order.order_trans)
  apply (metis less_le_trans)
  done

lemma extends_record_element: "extends s (record_element rt e tree s)"
  by (simp add: extends_def fixed_fields_def)

lemma extends_set_children:
  "extends s s' \<Longrightarrow> t_children (nodes s tree) = [] \<Longrightarrow> extends s (set_children tree cs s')"
  by (simp add: extends_def fixed_fields_def)

lemma extends_new_root: "extends s (init_root (next_addr s) (alloc obj s))"
  by (simp add: extends_def fixed_fields_def elParents_of_def)

lemma extends_new_child: "extends s (init_child (next_addr s) p (alloc obj s))"
  by (simp add: extends_def fixed_fields_def elParents_of_def)

lemma priv_GetParentsForElement_create:
  assumes "priv_GetParentsForElement s this e True = Inr (r, s0)"
  shows "r = Some (elParents_of s (rootTree s this) e)"
    and "t_elementsParents (nodes s (rootTree s this)) \<noteq> None"
    and "s0 = s \<or> (elParents_of s (rootTree s this) e = [] \<and>
                    s0 = set_elParents (rootTree s this) e (Some []) s)"
  using assms
  by (auto simp: priv_GetParentsForElement_def Let_def elParents_of_def
           split: option.splits if_splits)

lemma extends_create:
  "priv_GetParentsForElement s this e True = Inr (r, s0) \<Longrightarrow> extends s s0"
  by (drule priv_GetParentsForElement_create(3))
     (auto simp: extends_def fixed_fields_def)

lemma run_extends:
  "loop_run G e rt pool s s' \<Longrightarrow> extends s s'"
  "new_run G s obj inits a s' \<Longrightarrow> extends s s' \<and> a = next_addr s \<and> a < next_addr s'"
  "init_run G this els s s' \<Longrightarrow> extends s s'"
  "add_run G s this e s' \<Longrightarrow> extends s s'"
proof (induction rule: loop_run_new_run_init_run_add_run.inducts)
  case (loop_done G e rt s)
  show ?case by simp
next
  case (loop_skip G e s tree rt pool s')
  then show ?case by simp
next
  case (loop_descend G e s tree s1 rt pool s')
  then show ?case using extends_record_element extends_trans by blast
next
  case (loop_split G e s tree s1 rt t c1 s2 c2 s3 c3 s4 c4 s5 pool s')
  have "extends s1 s5"
    using loop_split.IH by (blast intro: extends_trans)
  moreover have "t_children (nodes s1 tree) = []"
    using loop_split.hyps by (simp add: IsSplit_def)
  ultimately have "extends s1 (set_children tree [c1, c2, c3, c4] s5)"
    by (rule extends_set_children)
  moreover have "extends s s1"
    using loop_split.hyps extends_record_element by simp
  ultimately show ?case using loop_split.IH by (blast intro: extends_trans)
next
  case (loop_stay G e s tree s1 rt pool s')
  then show ?case using extends_record_element extends_trans by blast
next
  case (new_root obj x y width height maxElements maxDepth G s inits s')
  have 1: "extends s (init_root (next_addr s) (alloc obj s))"
    by (rule extends_new_root)
  have 2: "extends (init_root (next_addr s) (alloc obj s)) s'"
    using new_root.IH .
  have "next_addr s < next_addr s'"
    using 2 by (simp add: extends_def)
  with extends_trans [OF 1 2] show ?case by simp
next
  case (new_child obj x y width height maxElements maxDepth p s1 s G s' inits)
  have 1: "extends s s1"
    unfolding new_child.hyps by (rule extends_new_child)
  have 2: "extends s1 s'"
    using new_child.IH .
  have "next_addr s < next_addr s'"
    using 2 unfolding new_child.hyps by (simp add: extends_def)
  with extends_trans [OF 1 2] show ?case by simp
next
  case (init_nil G this s)
  show ?case by simp
next
  case (init_cons G s this el s1 els s')
  then show ?case by (blast intro: extends_trans)
next
  case (add s this e elParents s0 G s')
  then show ?case by (blast intro: extends_trans extends_create)
qed

section \<open>Inverting a run\<close>

inductive_cases loop_run_NilE: "loop_run G e rt [] s s'"
inductive_cases loop_run_snocE: "loop_run G e rt (pool @ [tree]) s s'"
inductive_cases add_runE: "add_run G s this e s'"
inductive_cases init_run_NilE: "init_run G this [] s s'"
inductive_cases init_run_ConsE: "init_run G this (el # els) s s'"
inductive_cases new_runE: "new_run G s obj inits a s'"

lemma extends_elParents:
  "extends s s' \<Longrightarrow> a < next_addr s \<Longrightarrow> prefix (elParents_of s a e) (elParents_of s' a e)"
  by (simp add: extends_def)

lemma extends_elements:
  "extends s s' \<Longrightarrow> a < next_addr s \<Longrightarrow> prefix (t_elements (nodes s a)) (t_elements (nodes s' a))"
  by (simp add: extends_def)

lemma extends_next: "extends s s' \<Longrightarrow> next_addr s \<le> next_addr s'"
  by (simp add: extends_def)

lemma extends_fixed:
  assumes "extends s s'" and "a < next_addr s"
  shows "t_x (nodes s' a) = t_x (nodes s a)" "t_y (nodes s' a) = t_y (nodes s a)"
    "t_width (nodes s' a) = t_width (nodes s a)" "t_height (nodes s' a) = t_height (nodes s a)"
    "t_maxElements (nodes s' a) = t_maxElements (nodes s a)"
    "t_root (nodes s' a) = t_root (nodes s a)" "t_depth (nodes s' a) = t_depth (nodes s a)"
    "t_parent (nodes s' a) = t_parent (nodes s a)"
    "t_maxDepth (nodes s' a) = t_maxDepth (nodes s a)"
    "rootTree s' a = rootTree s a" "inside G e (nodes s' a) = inside G e (nodes s a)"
    "(t_elementsParents (nodes s' a) = None) = (t_elementsParents (nodes s a) = None)"
  using assms by (simp_all add: extends_def fixed_fields_def rootTree_def inside_def)

lemma extends_children:
  "extends s s' \<Longrightarrow> a < next_addr s \<Longrightarrow> t_children (nodes s a) \<noteq> [] \<Longrightarrow>
   t_children (nodes s' a) = t_children (nodes s a)"
  by (simp add: extends_def)

lemma loop_run_snoc_cases [consumes 1, case_names skip descend split stay]:
  assumes "loop_run G e rt (pool @ [tree]) s s'"
  obtains
    (skip) "\<not> inside G e (nodes s tree)" "loop_run G e rt pool s s'"
  | (descend) "inside G e (nodes s tree)" "IsSplit (nodes s tree)"
      "loop_run G e rt (pool @ t_children (nodes s tree)) (record_element rt e tree s) s'"
  | (split) c1 s2 c2 s3 c3 s4 c4 s5 where
      "inside G e (nodes s tree)" "\<not> IsSplit (nodes s tree)"
      "may_split (nodes (record_element rt e tree s) tree)"
      "new_run G (record_element rt e tree s)
         (new_object (t_x (nodes s tree)) (t_y (nodes s tree))
            (nhalf (t_width (nodes s tree))) (nhalf (t_height (nodes s tree)))
            (t_maxElements (nodes s tree)) (t_maxDepth (nodes s tree)) (Some tree)) [] c1 s2"
      "new_run G s2
         (new_object (nadd (t_x (nodes s tree)) (nhalf (t_width (nodes s tree)))) (t_y (nodes s tree))
            (nhalf (t_width (nodes s tree))) (nhalf (t_height (nodes s tree)))
            (t_maxElements (nodes s tree)) (t_maxDepth (nodes s tree)) (Some tree)) [] c2 s3"
      "new_run G s3
         (new_object (t_x (nodes s tree)) (nadd (t_y (nodes s tree)) (nhalf (t_height (nodes s tree))))
            (nhalf (t_width (nodes s tree))) (nhalf (t_height (nodes s tree)))
            (t_maxElements (nodes s tree)) (t_maxDepth (nodes s tree)) (Some tree)) [] c3 s4"
      "new_run G s4
         (new_object (nadd (t_x (nodes s tree)) (nhalf (t_width (nodes s tree))))
            (nadd (t_y (nodes s tree)) (nhalf (t_height (nodes s tree))))
            (nhalf (t_width (nodes s tree))) (nhalf (t_height (nodes s tree)))
            (t_maxElements (nodes s tree)) (t_maxDepth (nodes s tree)) (Some tree)) [] c4 s5"
      "loop_run G e rt pool (set_children tree [c1, c2, c3, c4] s5) s'"
  | (stay) "inside G e (nodes s tree)" "\<not> IsSplit (nodes s tree)"
      "\<not> may_split (nodes (record_element rt e tree s) tree)"
      "loop_run G e rt pool (record_element rt e tree s) s'"
  using assms by (rule loop_run_snocE)

lemma loop_run_Nil [simp]: "loop_run G e rt [] s s' \<longleftrightarrow> s' = s"
  by (auto elim: loop_run_NilE intro: loop_done)

text \<open>The first iteration of the loop on \<open>[this]\<close>.\<close>

lemma loop_run_single:
  assumes "loop_run G e rt [this] s s'"
  shows "(\<not> inside G e (nodes s this) \<and> s' = s) \<or>
         (inside G e (nodes s this) \<and> extends (record_element rt e this s) s')"
proof -
  from assms have "loop_run G e rt ([] @ [this]) s s'" by simp
  then show ?thesis
  proof (cases rule: loop_run_snoc_cases)
    case skip
    then show ?thesis by simp
  next
    case descend
    then show ?thesis using run_extends(1) by auto
  next
    case (split c1 s2 c2 s3 c3 s4 c4 s5)
    let ?s1 = "record_element rt e this s"
    have "extends ?s1 s5"
      using split run_extends(2) by (blast intro: extends_trans)
    moreover have "t_children (nodes ?s1 this) = []"
      using split by (simp add: IsSplit_def)
    ultimately have "extends ?s1 (set_children this [c1, c2, c3, c4] s5)"
      by (rule extends_set_children)
    then show ?thesis using split by simp
  next
    case stay
    then show ?thesis by simp
  qed
qed

lemma AddElement_Inr:
  assumes "AddElement fuel G s this e = Inr (b, s')"
  obtains s0 where
    "priv_GetParentsForElement s this e True = Inr (Some (elParents_of s (rootTree s this) e), s0)"
    "loop_run G e (rootTree s this) [this] s0 s'"
    "b = (length (elParents_of s' (rootTree s this) e) > length (elParents_of s (rootTree s this) e))"
proof (cases fuel)
  case 0
  with assms show ?thesis by simp
next
  case (Suc k)
  with assms obtain l s0 where
    g: "priv_GetParentsForElement s this e True = Inr (Some l, s0)" and
    r: "AddElement_loop k G e (rootTree s this) [this] s0 = Inr s'" and
    b: "b = (length (elParents_of s' (rootTree s this) e) > length l)"
    by (auto simp: Let_def split: sum.splits prod.splits option.splits)
  from priv_GetParentsForElement_create(1) [OF g]
  have l: "l = elParents_of s (rootTree s this) e" by simp
  show ?thesis
    using that [of s0] g r b l AddElement_loop_run by simp
qed

lemma AddElement_result:
  assumes run: "AddElement fuel G s this e = Inr (b, s')"
      and rt: "rootTree s this < next_addr s"
  shows "b = inside G e (nodes s this)"
    and "\<not> inside G e (nodes s this) \<Longrightarrow>
         s' = s \<or> (elParents_of s (rootTree s this) e = [] \<and>
                   s' = set_elParents (rootTree s this) e (Some []) s)"
proof -
  let ?rt = "rootTree s this"
  from run obtain s0 where
    g: "priv_GetParentsForElement s this e True = Inr (Some (elParents_of s ?rt e), s0)" and
    l: "loop_run G e ?rt [this] s0 s'" and
    b: "b = (length (elParents_of s' ?rt e) > length (elParents_of s ?rt e))"
    by (rule AddElement_Inr)
  from priv_GetParentsForElement_create [OF g]
  have idx: "t_elementsParents (nodes s ?rt) \<noteq> None"
    and s0: "s0 = s \<or> (elParents_of s ?rt e = [] \<and> s0 = set_elParents ?rt e (Some []) s)"
    by simp_all
  from s0 have same: "elParents_of s0 ?rt e = elParents_of s ?rt e"
    and ins: "inside G e (nodes s0 this) = inside G e (nodes s this)"
    and n0: "next_addr s0 = next_addr s"
    by auto
  from s0 idx have idx0: "t_elementsParents (nodes s0 ?rt) \<noteq> None"
    by (elim disjE conjE) simp_all
  from loop_run_single [OF l]
  show "b = inside G e (nodes s this)"
  proof
    assume "\<not> inside G e (nodes s0 this) \<and> s' = s0"
    then show ?thesis using b same ins by simp
  next
    assume a: "inside G e (nodes s0 this) \<and> extends (record_element ?rt e this s0) s'"
    then have ex: "extends (record_element ?rt e this s0) s'" by simp
    have "?rt < next_addr (record_element ?rt e this s0)"
      using rt n0 by simp
    with ex have "prefix (elParents_of (record_element ?rt e this s0) ?rt e) (elParents_of s' ?rt e)"
      by (rule extends_elParents)
    moreover have "elParents_of (record_element ?rt e this s0) ?rt e = elParents_of s0 ?rt e @ [this]"
      using idx0 by simp
    ultimately have "length (elParents_of s0 ?rt e @ [this]) \<le> length (elParents_of s' ?rt e)"
      by (auto dest: prefix_length_le)
    then show ?thesis using a b same ins by simp
  qed
  show "s' = s \<or> (elParents_of s ?rt e = [] \<and> s' = set_elParents ?rt e (Some []) s)"
    if "\<not> inside G e (nodes s this)"
    using loop_run_single [OF l] that ins s0 by auto
qed

section \<open>Subdivision of a leaf\<close>

lemma create_fields:
  assumes "priv_GetParentsForElement s this e True = Inr (r, s0)"
  shows "t_children (nodes s0 a) = t_children (nodes s a)"
    and "t_elements (nodes s0 a) = t_elements (nodes s a)"
    and "inside G x (nodes s0 a) = inside G x (nodes s a)"
    and "IsSplit (nodes s0 a) = IsSplit (nodes s a)"
    and "may_split (nodes (record_element rt e b s0) b) = may_split (nodes (record_element rt e b s) b)"
    and "next_addr s0 = next_addr s"
    and "fixed_fields (nodes s0 a) = fixed_fields (nodes s a)"
  using priv_GetParentsForElement_create(3) [OF assms]
  by (auto simp: may_split_def fixed_fields_def)

lemma may_split_record:
  "may_split (nodes (record_element rt e this s) this) \<longleftrightarrow>
     (t_maxDepth (nodes s this) < 0 \<or> t_depth (nodes s this) < t_maxDepth (nodes s this)) \<and>
     int (length (t_elements (nodes s this))) + 1 > t_maxElements (nodes s this)"
  by (auto simp: may_split_def)

text \<open>What one insertion does to the leaf it is called on.\<close>

lemma add_run_leaf:
  assumes run: "add_run G s this e s'"
      and leaf: "\<not> IsSplit (nodes s this)"
  shows "IsSplit (nodes s' this) \<longleftrightarrow>
           inside G e (nodes s this) \<and>
           (t_maxDepth (nodes s this) < 0 \<or> t_depth (nodes s this) < t_maxDepth (nodes s this)) \<and>
           int (length (t_elements (nodes s this))) + 1 > t_maxElements (nodes s this)"
    and "IsSplit (nodes s' this) \<Longrightarrow> length (t_children (nodes s' this)) = 4"
    and "\<not> IsSplit (nodes s' this) \<Longrightarrow>
           t_elements (nodes s' this) =
           t_elements (nodes s this) @ (if inside G e (nodes s this) then [e] else []) \<and>
           fixed_fields (nodes s' this) = fixed_fields (nodes s this) \<and>
           next_addr s' = next_addr s"
proof -
  from run obtain l0 s0 where
    g: "priv_GetParentsForElement s this e True = Inr (Some l0, s0)" and
    l: "loop_run G e (rootTree s this) ([] @ [this]) s0 s'"
    by (auto elim: add_runE)
  note f = create_fields [OF g]
  from l have
    "(IsSplit (nodes s' this) \<longleftrightarrow>
           inside G e (nodes s this) \<and>
           (t_maxDepth (nodes s this) < 0 \<or> t_depth (nodes s this) < t_maxDepth (nodes s this)) \<and>
           int (length (t_elements (nodes s this))) + 1 > t_maxElements (nodes s this)) \<and>
     (IsSplit (nodes s' this) \<longrightarrow> length (t_children (nodes s' this)) = 4) \<and>
     (\<not> IsSplit (nodes s' this) \<longrightarrow>
           t_elements (nodes s' this) =
           t_elements (nodes s this) @ (if inside G e (nodes s this) then [e] else []) \<and>
           fixed_fields (nodes s' this) = fixed_fields (nodes s this) \<and>
           next_addr s' = next_addr s)"
  proof (cases rule: loop_run_snoc_cases)
    case skip
    then show ?thesis using leaf f by simp
  next
    case descend
    then show ?thesis using leaf f by simp
  next
    case (split c1 s2 c2 s3 c3 s4 c4 s5)
    then have "s' = set_children this [c1, c2, c3, c4] s5" by simp
    moreover have "may_split (nodes (record_element (rootTree s this) e this s) this)"
      using split(3) f(5) by simp
    ultimately show ?thesis
      using split(1) f(3) by (simp add: IsSplit_def may_split_record)
  next
    case stay
    then have "s' = record_element (rootTree s this) e this s0" by simp
    moreover have "\<not> may_split (nodes (record_element (rootTree s this) e this s) this)"
      using stay(3) f(5) by simp
    ultimately show ?thesis
      using stay(1) leaf f by (simp add: may_split_record fixed_fields_def)
  qed
  then show "IsSplit (nodes s' this) \<longleftrightarrow>
           inside G e (nodes s this) \<and>
           (t_maxDepth (nodes s this) < 0 \<or> t_depth (nodes s this) < t_maxDepth (nodes s this)) \<and>
           int (length (t_elements (nodes s this))) + 1 > t_maxElements (nodes s this)"
    and "IsSplit (nodes s' this) \<Longrightarrow> length (t_children (nodes s' this)) = 4"
    and "\<not> IsSplit (nodes s' this) \<Longrightarrow>
           t_elements (nodes s' this) =
           t_elements (nodes s this) @ (if inside G e (nodes s this) then [e] else []) \<and>
           fixed_fields (nodes s' this) = fixed_fields (nodes s this) \<and>
           next_addr s' = next_addr s"
    by blast+
qed


lemma init_run_no_split:
  "init_run G r els s s' \<Longrightarrow> \<not> IsSplit (nodes s r) \<Longrightarrow>
   int (length (t_elements (nodes s r)) + length els) \<le> t_maxElements (nodes s r) \<Longrightarrow>
   \<not> IsSplit (nodes s' r) \<and>
   length (t_elements (nodes s' r)) \<le> length (t_elements (nodes s r)) + length els \<and>
   fixed_fields (nodes s' r) = fixed_fields (nodes s r)"
proof (induction els arbitrary: s)
  case Nil
  then show ?case by (auto elim: init_run_NilE)
next
  case (Cons el els)
  from Cons.prems(1) obtain s1 where
    a: "add_run G s r el s1" and i: "init_run G r els s1 s'"
    by (auto elim: init_run_ConsE)
  have ns: "\<not> IsSplit (nodes s1 r)"
    using add_run_leaf(1) [OF a Cons.prems(2)] Cons.prems(3) by simp
  note st = add_run_leaf(3) [OF a Cons.prems(2) ns]
  have cap: "t_maxElements (nodes s1 r) = t_maxElements (nodes s r)"
    using st by (simp add: fixed_fields_def)
  have "int (length (t_elements (nodes s1 r)) + length els) \<le> t_maxElements (nodes s1 r)"
    using st Cons.prems(3) cap by simp
  from Cons.IH [OF i ns this] show ?case using st by (auto split: if_splits)
qed

lemma exec_adds_no_split:
  "exec fuel (map (Add r) es) G s = Inr (bs, G', s') \<Longrightarrow> \<not> IsSplit (nodes s r) \<Longrightarrow>
   int (length (t_elements (nodes s r)) + length es) \<le> t_maxElements (nodes s r) \<Longrightarrow>
   \<not> IsSplit (nodes s' r)"
proof (induction es arbitrary: s bs)
  case Nil
  then show ?case by simp
next
  case (Cons e es)
  from Cons.prems(1) obtain b s1 bs' where
    a: "AddElement fuel G s r e = Inr (b, s1)" and
    x: "exec fuel (map (Add r) es) G s1 = Inr (bs', G', s')"
    by (auto split: if_splits sum.splits prod.splits)
  note ar = AddElement_run [OF a]
  have ns: "\<not> IsSplit (nodes s1 r)"
    using add_run_leaf(1) [OF ar Cons.prems(2)] Cons.prems(3) by simp
  note st = add_run_leaf(3) [OF ar Cons.prems(2) ns]
  have cap: "t_maxElements (nodes s1 r) = t_maxElements (nodes s r)"
    using st by (simp add: fixed_fields_def)
  have "int (length (t_elements (nodes s1 r)) + length es) \<le> t_maxElements (nodes s1 r)"
    using st Cons.prems(3) cap by simp
  from Cons.IH [OF x ns this] show ?case .
qed

lemma new_root_run:
  assumes "QuadTree_new fuel G s x y w h mE mD inits None = Inr (r, s')"
  shows "r = next_addr s"
    and "init_run G r inits (init_root r (alloc (new_object x y w h mE mD None) s)) s'"
  using QuadTree_new_run [OF assms]
  by (auto elim!: new_runE simp: new_object_def)

lemma fresh_root_fields:
  "nodes (init_root (next_addr s) (alloc (new_object x y w h mE mD None) s)) (next_addr s) =
   (new_object x y w h mE mD None)\<lparr>t_elementsParents := Some Map.empty\<rparr>"
  by simp


lemma exec_adds_extends:
  "exec fuel (map (Add r) es) G s = Inr (bs, G', s') \<Longrightarrow> extends s s'"
proof (induction es arbitrary: s bs)
  case Nil
  then show ?case by simp
next
  case (Cons e es)
  from Cons.prems(1) obtain b s1 bs' where
    a: "AddElement fuel G s r e = Inr (b, s1)" and
    x: "exec fuel (map (Add r) es) G s1 = Inr (bs', G', s')"
    by (auto split: if_splits sum.splits prod.splits)
  from run_extends(4) [OF AddElement_run [OF a]] Cons.IH [OF x]
  show ?case by (rule extends_trans)
qed

lemma inside_fixed_fields:
  "fixed_fields t' = fixed_fields t \<Longrightarrow> inside G e t' = inside G e t"
  by (simp add: fixed_fields_def inside_def)

lemma exec_adds_split:
  "exec fuel (map (Add r) es) G s = Inr (bs, G', s') \<Longrightarrow> r < next_addr s \<Longrightarrow>
   \<not> IsSplit (nodes s r) \<Longrightarrow> \<forall>e \<in> set es. inside G e (nodes s r) \<Longrightarrow>
   int (length (t_elements (nodes s r))) \<le> t_maxElements (nodes s r) \<Longrightarrow>
   int (length (t_elements (nodes s r)) + length es) > t_maxElements (nodes s r) \<Longrightarrow>
   t_maxDepth (nodes s r) < 0 \<or> t_depth (nodes s r) < t_maxDepth (nodes s r) \<Longrightarrow>
   length (t_children (nodes s' r)) = 4"
proof (induction es arbitrary: s bs)
  case Nil
  then show ?case by simp
next
  case (Cons e es)
  from Cons.prems(1) obtain b s1 bs' where
    a: "AddElement fuel G s r e = Inr (b, s1)" and
    x: "exec fuel (map (Add r) es) G s1 = Inr (bs', G', s')"
    by (auto split: if_splits sum.splits prod.splits)
  note ar = AddElement_run [OF a]
  have e_in: "inside G e (nodes s r)" using Cons.prems(4) by simp
  show ?case
  proof (cases "IsSplit (nodes s1 r)")
    case True
    from add_run_leaf(2) [OF ar Cons.prems(3) True]
    have four: "length (t_children (nodes s1 r)) = 4" .
    have "r < next_addr s1"
      using run_extends(4) [OF ar] Cons.prems(2) by (auto dest: extends_next)
    moreover have "t_children (nodes s1 r) \<noteq> []" using four by auto
    ultimately have "t_children (nodes s' r) = t_children (nodes s1 r)"
      using exec_adds_extends [OF x] by (auto dest: extends_children)
    with four show ?thesis by simp
  next
    case False
    note st = add_run_leaf(3) [OF ar Cons.prems(3) False]
    have nsplit: "\<not> (int (length (t_elements (nodes s r))) + 1 > t_maxElements (nodes s r))"
      using add_run_leaf(1) [OF ar Cons.prems(3)] False e_in Cons.prems(7) by simp
    have ff: "fixed_fields (nodes s1 r) = fixed_fields (nodes s r)" using st by simp
    have len: "length (t_elements (nodes s1 r)) = length (t_elements (nodes s r)) + 1"
      using st e_in by simp
    have 1: "r < next_addr s1" using st Cons.prems(2) by simp
    have 2: "\<forall>x \<in> set es. inside G x (nodes s1 r)"
      using Cons.prems(4) inside_fixed_fields [OF ff] by simp
    have 3: "int (length (t_elements (nodes s1 r))) \<le> t_maxElements (nodes s1 r)"
      using nsplit len ff by (simp add: fixed_fields_def)
    have 4: "int (length (t_elements (nodes s1 r)) + length es) > t_maxElements (nodes s1 r)"
      using Cons.prems(6) len ff by (simp add: fixed_fields_def)
    have 5: "t_maxDepth (nodes s1 r) < 0 \<or> t_depth (nodes s1 r) < t_maxDepth (nodes s1 r)"
      using Cons.prems(7) ff by (simp add: fixed_fields_def)
    from Cons.IH [OF x 1 False 2 3 4 5] show ?thesis .
  qed
qed

text \<open>
  A fresh leaf of the current copy: up to \<open>maxElements\<close> insertions never split it, and
  \<open>maxElements + 1\<close> overlapping insertions with the depth limit unreached split it into
  four, whenever the insertions return.
\<close>

lemma fresh_leaf_capacity:
  assumes run: "program fuel G x y w h mE mD [] (map (Add 0) es) = Inr (bs, G', s)"
  shows "int (length es) \<le> mE \<Longrightarrow> \<not> IsSplit (nodes s 0)"
    and "0 \<le> mE \<Longrightarrow> int (length es) > mE \<Longrightarrow> \<forall>e \<in> set es. IsInsideRect (G e) x y w h \<Longrightarrow>
         mD < 0 \<or> 0 < mD \<Longrightarrow> length (t_children (nodes s 0)) = 4"
proof -
  from run obtain r s0 where
    n: "QuadTree_new fuel G empty_heap x y w h mE mD [] None = Inr (r, s0)" and
    x: "exec fuel (map (Add 0) es) G s0 = Inr (bs, G', s)"
    by (auto simp: program_def split: sum.splits prod.splits)
  from new_root_run [OF n] have
    s0: "s0 = init_root 0 (alloc (new_object x y w h mE mD None) empty_heap)"
    by (auto simp: empty_heap_def elim: init_run_NilE)
  have root: "nodes s0 0 = (new_object x y w h mE mD None)\<lparr>t_elementsParents := Some Map.empty\<rparr>"
    and nx: "next_addr s0 = 1"
    unfolding s0 by (simp_all add: empty_heap_def)
  show "\<not> IsSplit (nodes s 0)" if "int (length es) \<le> mE"
    using exec_adds_no_split [OF x] that root by (simp add: new_object_def IsSplit_def)
  show "length (t_children (nodes s 0)) = 4"
    if "0 \<le> mE" "int (length es) > mE" "\<forall>e \<in> set es. IsInsideRect (G e) x y w h" "mD < 0 \<or> 0 < mD"
    using exec_adds_split [OF x] that root nx
    by (simp add: new_object_def IsSplit_def inside_def)
qed

section \<open>Deduplication\<close>

lemma remdups_snoc: "remdups (zs @ [x]) = remdups (filter (\<lambda>y. y \<noteq> x) zs) @ [x]"
  by (induction zs) auto

lemma dedup_first_Nil [simp]: "dedup_first [] = []"
  by (simp add: dedup_first_def)

lemma dedup_first_Cons:
  "dedup_first (x # ys) = x # dedup_first (filter (\<lambda>y. y \<noteq> x) ys)"
  by (simp add: dedup_first_def remdups_snoc rev_filter)

lemma filter_seen_dedup:
  "filter_seen seen xs = dedup_first (filter (\<lambda>y. \<not> seen y) xs)"
proof (induction xs arbitrary: seen)
  case Nil
  show ?case by simp
next
  case (Cons x xs)
  show ?case
  proof (cases "seen x")
    case True
    then show ?thesis using Cons.IH [of seen] by simp
  next
    case False
    have f: "filter (\<lambda>y. \<not> (seen(x := True)) y) xs =
             filter (\<lambda>y. y \<noteq> x) (filter (\<lambda>y. \<not> seen y) xs)"
      by (induction xs) auto
    have "filter_seen seen (x # xs) = x # filter_seen (seen(x := True)) xs"
      using False by simp
    also have "filter_seen (seen(x := True)) xs =
               dedup_first (filter (\<lambda>y. \<not> (seen(x := True)) y) xs)"
      by (rule Cons.IH)
    also have "x # dedup_first (filter (\<lambda>y. \<not> (seen(x := True)) y) xs) =
               dedup_first (x # filter (\<lambda>y. \<not> seen y) xs)"
      by (simp only: f dedup_first_Cons)
    also have "x # filter (\<lambda>y. \<not> seen y) xs = filter (\<lambda>y. \<not> seen y) (x # xs)"
      using False by simp
    finally show ?thesis .
  qed
qed

lemma subseq_dedup_first: "subseq (dedup_first xs) xs"
proof (induction xs rule: length_induct)
  case (1 xs)
  show ?case
  proof (cases xs)
    case Nil
    then show ?thesis by simp
  next
    case (Cons x ys)
    have "length (filter (\<lambda>y. y \<noteq> x) ys) < length xs"
      using Cons by (simp add: le_imp_less_Suc)
    with 1 have "subseq (dedup_first (filter (\<lambda>y. y \<noteq> x) ys)) (filter (\<lambda>y. y \<noteq> x) ys)"
      by blast
    moreover have "subseq (filter (\<lambda>y. y \<noteq> x) ys) ys" by simp
    ultimately have "subseq (dedup_first (filter (\<lambda>y. y \<noteq> x) ys)) ys"
      by (rule subseq_order.order_trans)
    then show ?thesis using Cons by (simp add: dedup_first_Cons)
  qed
qed

lemma dedup_first_props:
  "distinct (dedup_first xs)" "set (dedup_first xs) = set xs"
  "distinct xs \<Longrightarrow> dedup_first xs = xs"
  by (simp_all add: dedup_first_def distinct_remdups_id)

lemma GetElementsInRect_leaf:
  assumes "\<not> IsSplit (nodes s this)"
  shows "GetElementsInRect_loop (Suc (Suc k)) s x y w h [this] [] =
         Inr (if length (t_elements (nodes s this)) = 0 \<or> \<not> IsRectInBounds (nodes s this) x y w h
              then [] else t_elements (nodes s this))"
  using assms by (simp add: Let_def)

section \<open>Evaluating the examples\<close>

text \<open>
  Evaluation of the operations on concrete heaps: heaps stay chains of primitive
  updates, and every field read is resolved through the chain.
\<close>

lemma index_simps [simp]:
  "t_elementsParents (nodes (set_elParents rt e v s) a) =
     (if a = rt then map_option (\<lambda>ep. ep(e := v)) (t_elementsParents (nodes s rt))
      else t_elementsParents (nodes s a))"
  "t_elementsParents (nodes (record_element rt e tree s) a) =
     (if a = rt
      then map_option (\<lambda>ep. ep(e \<mapsto> elParents_of s rt e @ [tree])) (t_elementsParents (nodes s rt))
      else t_elementsParents (nodes s a))"
  "t_elementsParents (nodes (pop_elParents rt e s) a) =
     (if a = rt
      then map_option (\<lambda>ep. ep(e \<mapsto> butlast (elParents_of s rt e))) (t_elementsParents (nodes s rt))
      else t_elementsParents (nodes s a))"
  by (auto simp: set_elParents_def record_element_def push_elParents_def push_element_def
                 pop_elParents_def upd_def split: option.splits)

lemmas eval_simps =
  eval_nat_numeral program_def heap_of_def results_of_def returns_def empty_heap_def
  G_points_def Let_def priv_GetParentsForElement_def priv_RemoveParentsForElement_def
  GetParentsForElement_def HasElement_def RemoveElement_def UpdateElement_def
  RemoveElement_loop.simps rootTree_def inside_def IsSplit_def may_split_def new_object_def
  elParents_of_def GetElementsAt_def GetElementsInRect_def GetElements_def
  IsPointInBounds_def IsRectInBounds_def CreateResized_def splice1_def
  fresh_tree_def twice_tree_def pair_tree_def limited_tree_def root_split_old_def may_split_old_def nsub_def



lemma fun_upd_sort: "c < a \<Longrightarrow> (m(a := b))(c := d) = (m(c := d))(a := (b::'b))" for a c :: nat
  by (rule fun_upd_twist) simp

lemmas norm_simps =
  eval_simps upd_def alloc_def init_root_def init_child_def set_children_def push_element_def
  push_elParents_def record_element_def set_elParents_def pop_elParents_def remove_from_def
  fun_upd_sort

lemma quadrants_tree_eval:
  "GetElementsInRect 6 quadrants_tree 0 (Fin 0) (Fin 0) (Fin 100) (Fin 100) True = Inr [5, 1] \<and>
   GetElementsInRect 6 quadrants_tree 0 (Fin 0) (Fin 0) (Fin 100) (Fin 100) False = Inr [5, 5, 5, 1, 5]"
proof -
  have "\<exists>s. program 9 G_points (Fin 0) (Fin 0) (Fin 100) (Fin 100) 0 1 [] [Add 0 1, Add 0 5] =
               Inr ([True, True], G_points, s) \<and>
            GetElementsInRect 6 s 0 (Fin 0) (Fin 0) (Fin 100) (Fin 100) True = Inr [5, 1] \<and>
            GetElementsInRect 6 s 0 (Fin 0) (Fin 0) (Fin 100) (Fin 100) False = Inr [5, 5, 5, 1, 5]"
    by (simp add: norm_simps)
  then obtain s where
    p: "program 9 G_points (Fin 0) (Fin 0) (Fin 100) (Fin 100) 0 1 [] [Add 0 1, Add 0 5] = Inr ([True, True], G_points, s)"
    and a: "GetElementsInRect 6 s 0 (Fin 0) (Fin 0) (Fin 100) (Fin 100) True = Inr [5, 1]"
    and b: "GetElementsInRect 6 s 0 (Fin 0) (Fin 0) (Fin 100) (Fin 100) False = Inr [5, 5, 5, 1, 5]"
    by blast
  have "quadrants_tree = s"
    unfolding quadrants_tree_def heap_of_def p by simp
  with a b show ?thesis by simp
qed

section \<open>Comparisons and two roundings\<close>

lemma nlt_nle_cases: "nle a b \<Longrightarrow> nlt b a \<Longrightarrow> False"
  by (cases a; cases b) auto

lemma nle_total: "a \<noteq> NaN \<Longrightarrow> b \<noteq> NaN \<Longrightarrow> nlt a b \<or> nle b a"
  by (cases a; cases b) auto

lemma nlt_not_NaN: "nlt a b \<Longrightarrow> a \<noteq> NaN \<and> b \<noteq> NaN"
  by (cases a; cases b) auto

lemma nle_not_NaN: "nle a b \<Longrightarrow> a \<noteq> NaN \<and> b \<noteq> NaN"
  by (cases a; cases b) auto

lemma rnd_2p53_1: "rnd (2 ^ 53 + 1) = Fin (2 ^ 53)"
  by (subst rnd_eval [of 53]) (simp_all add: pow2_def round_even_def Let_def)

lemma rnd_2p53_2: "rnd (2 ^ 53 + 2) = Fin (2 ^ 53 + 2)"
  using rnd_exact [of "2 ^ 53 + 2" "2 ^ 52 + 1" 1] by (simp add: pow2_def)

section \<open>The circle test without rounding\<close>

lemma circle_code_exact:
  assumes "0 \<le> width" and "0 \<le> height"
      and "exact (x + width)" and "exact (y + height)"
      and "exact (dist_spec cx x width)" and "exact (dist_spec cy y height)"
      and "exact (dist_spec cx x width * dist_spec cx x width)"
      and "exact (dist_spec cy y height * dist_spec cy y height)"
      and "exact (sqDistance_spec cx cy x y width height)" and "exact (r * r)"
  shows "IsInsideRect (Circle (Fin cx) (Fin cy) (Fin r)) (Fin x) (Fin y) (Fin width) (Fin height)
         \<longleftrightarrow> sqDistance_spec cx cy x y width height \<le> r * r"
proof -
  have sx: "nadd (Fin x) (Fin width) = Fin (x + width)"
    using assms(3) by (simp add: exact_def)
  have sy: "nadd (Fin y) (Fin height) = Fin (y + height)"
    using assms(4) by (simp add: exact_def)
  have cx: "(if nlt (Fin cx) (Fin x) then Fin x
             else if ngt (Fin cx) (Fin (x + width)) then Fin (x + width) else Fin cx) =
            Fin (clamp_spec x (x + width) cx)"
    using assms(1) by (auto simp: clamp_spec_def max_def min_def)
  have cy: "(if nlt (Fin cy) (Fin y) then Fin y
             else if ngt (Fin cy) (Fin (y + height)) then Fin (y + height) else Fin cy) =
            Fin (clamp_spec y (y + height) cy)"
    using assms(2) by (auto simp: clamp_spec_def max_def min_def)
  have dx: "nsub (Fin cx) (Fin (clamp_spec x (x + width) cx)) = Fin (dist_spec cx x width)"
    using assms(5) by (simp add: exact_def nsub_def dist_spec_def)
  have dy: "nsub (Fin cy) (Fin (clamp_spec y (y + height) cy)) = Fin (dist_spec cy y height)"
    using assms(6) by (simp add: exact_def nsub_def dist_spec_def)
  have mx: "nmul (Fin (dist_spec cx x width)) (Fin (dist_spec cx x width)) =
            Fin (dist_spec cx x width * dist_spec cx x width)"
    using assms(7) by (simp add: exact_def)
  have my: "nmul (Fin (dist_spec cy y height)) (Fin (dist_spec cy y height)) =
            Fin (dist_spec cy y height * dist_spec cy y height)"
    using assms(8) by (simp add: exact_def)
  have sq: "nadd (Fin (dist_spec cx x width * dist_spec cx x width))
                 (Fin (dist_spec cy y height * dist_spec cy y height)) =
            Fin (sqDistance_spec cx cy x y width height)"
    using assms(9) by (simp add: exact_def sqDistance_spec_def)
  have rr: "nmul (Fin r) (Fin r) = Fin (r * r)"
    using assms(10) by (simp add: exact_def)
  show ?thesis
    unfolding IsInsideRect.simps Let_def sx sy cx cy dx dy mx my sq rr by simp
qed

lemma rect_touching:
  assumes "nadd ex ew = x \<or> ex = nadd x width \<or> nadd ey eh = y \<or> ey = nadd y height"
  shows "\<not> IsInsideRect (Rect ex ey ew eh) x y width height"
proof -
  have "\<not> nlt a a" for a by (cases a) auto
  then show ?thesis using assms by auto
qed

lemma rnd_tangent_1: "rnd 256528695226051161 = Fin 256528695226051168"
  apply (subst rnd_eval [of "57"])
    apply (simp add: pow2_def)
   apply (simp add: pow2_def)
  apply (simp add: pow2_def round_even_def Let_def)
  done

lemma rnd_tangent_2: "rnd 21776792746944400 = Fin 21776792746944400"
  apply (subst rnd_eval [of "54"])
    apply (simp add: pow2_def)
   apply (simp add: pow2_def)
  apply (simp add: pow2_def round_even_def Let_def)
  done

lemma rnd_tangent_3: "rnd 278305487972995568 = Fin 278305487972995584"
  apply (subst rnd_eval [of "57"])
    apply (simp add: pow2_def)
   apply (simp add: pow2_def)
  apply (simp add: pow2_def round_even_def Let_def)
  done

lemma rnd_tangent_4: "rnd 278305487972995561 = Fin 278305487972995552"
  apply (subst rnd_eval [of "57"])
    apply (simp add: pow2_def)
   apply (simp add: pow2_def)
  apply (simp add: pow2_def round_even_def Let_def)
  done

lemmas rnd_tangent = rnd_tangent_1 rnd_tangent_2 rnd_tangent_3 rnd_tangent_4

lemma rnd_tenth: "rnd (1 / 10) = Fin (3602879701896397 / 2 ^ 55)"
  apply (subst rnd_eval [of "- 4"])
    apply (simp add: pow2_def)
   apply (simp add: pow2_def)
  apply (simp add: pow2_def round_even_def Let_def)
  done

lemma rnd_eleven_tenths: "rnd (11 / 10) = Fin (2476979795053773 / 2 ^ 51)"
  apply (subst rnd_eval [of "0"])
    apply (simp add: pow2_def)
   apply (simp add: pow2_def)
  apply (simp add: pow2_def round_even_def Let_def)
  done

lemma rnd_tenths_diff: "rnd (- (36028797018963971 / 36028797018963968)) = Fin (- 1)"
  apply (subst rnd_eval [of "0"])
    apply (simp add: pow2_def)
   apply (simp add: pow2_def)
  apply (simp add: pow2_def round_even_def Let_def)
  done

lemmas rnd_tenths = rnd_tenth rnd_eleven_tenths rnd_tenths_diff

section \<open>Insertion outside the bounds\<close>

lemma AddElement_outside:
  assumes g: "GetParentsForElement s this e = Inr None \<or>
              GetParentsForElement s this e = Inr (Some [])"
      and ni: "\<not> inside G e (nodes s this)"
  shows "\<exists>s'. AddElement (Suc (Suc (Suc k))) G s this e = Inr (False, s') \<and>
              next_addr s' = next_addr s \<and>
              (\<forall>a. t_elements (nodes s' a) = t_elements (nodes s a) \<and>
                   t_children (nodes s' a) = t_children (nodes s a)) \<and>
              GetParentsForElement s' this e = Inr (Some [])"
proof -
  let ?rt = "rootTree s this"
  from g obtain ep where ep: "t_elementsParents (nodes s ?rt) = Some ep"
    and epe: "ep e = None \<or> ep e = Some []"
    by (auto simp: GetParentsForElement_def priv_GetParentsForElement_def Let_def
             split: option.splits)
  define s0 where "s0 = (if ep e = None then set_elParents ?rt e (Some []) s else s)"
  have pg: "priv_GetParentsForElement s this e True = Inr (Some [], s0)"
    using ep epe by (auto simp: priv_GetParentsForElement_def Let_def s0_def)
  have fields: "next_addr s0 = next_addr s"
    "\<And>a. t_elements (nodes s0 a) = t_elements (nodes s a)"
    "\<And>a. t_children (nodes s0 a) = t_children (nodes s a)"
    "\<not> inside G e (nodes s0 this)"
    "elParents_of s0 ?rt e = []"
    "GetParentsForElement s0 this e = Inr (Some [])"
    using ep epe ni
    by (auto simp: s0_def set_elParents_def upd_def inside_def elParents_of_def
                   GetParentsForElement_def priv_GetParentsForElement_def Let_def rootTree_def
             split: option.splits)
  have loop: "AddElement_loop (Suc (Suc k)) G e ?rt [this] s0 = Inr s0"
    using fields(4) by simp
  have "AddElement (Suc (Suc (Suc k))) G s this e = Inr (False, s0)"
    unfolding AddElement.simps pg using loop fields(5) by (simp del: AddElement_loop.simps)
  with fields show ?thesis by blast
qed

section \<open>A derivation is a run with enough fuel\<close>

lemma ge_SucE:
  assumes "Suc m \<le> k'"
  obtains k where "k' = Suc k" "m \<le> k"
  using assms by (cases k') auto

lemma run_complete:
  "loop_run G e rt pool s s' \<Longrightarrow> \<exists>k. \<forall>k'\<ge>k. AddElement_loop k' G e rt pool s = Inr s'"
  "new_run G s obj inits a s' \<Longrightarrow>
     \<exists>k. \<forall>k'\<ge>k. QuadTree_new k' G s (t_x obj) (t_y obj) (t_width obj) (t_height obj)
                    (t_maxElements obj) (t_maxDepth obj) inits (t_parent obj) = Inr (a, s')"
  "init_run G this els s s' \<Longrightarrow> \<exists>k. \<forall>k'\<ge>k. QuadTree_init k' G this els s = Inr s'"
  "add_run G s this e s' \<Longrightarrow>
     \<exists>k. \<forall>k'\<ge>k. AddElement k' G s this e =
       Inr (length (elParents_of s (rootTree s this) e)
              < length (elParents_of s' (rootTree s this) e), s')"
proof (induction rule: loop_run_new_run_init_run_add_run.inducts)
  case (loop_done G e rt s)
  have "AddElement_loop k' G e rt [] s = Inr s" if "Suc 0 \<le> k'" for k'
    using that by (elim ge_SucE) simp
  then show ?case by blast
next
  case (loop_skip G e s tree rt pool s')
  then obtain k where k: "\<And>k'. k \<le> k' \<Longrightarrow> AddElement_loop k' G e rt pool s = Inr s'"
    by blast
  have "AddElement_loop k' G e rt (pool @ [tree]) s = Inr s'" if "Suc k \<le> k'" for k'
    using that loop_skip.hyps k by (elim ge_SucE) simp
  then show ?case by blast
next
  case (loop_descend G e s tree s1 rt pool s')
  then obtain k where k: "\<And>k'. k \<le> k' \<Longrightarrow>
      AddElement_loop k' G e rt (pool @ t_children (nodes s1 tree)) s1 = Inr s'"
    by blast
  have "AddElement_loop k' G e rt (pool @ [tree]) s = Inr s'" if "Suc k \<le> k'" for k'
    using that loop_descend.hyps k by (elim ge_SucE) (simp add: Let_def)
  then show ?case by blast
next
  case (loop_split G e s tree s1 rt t c1 s2 c2 s3 c3 s4 c4 s5 pool s')
  from loop_split.IH(1) obtain k1 where
    k1: "\<forall>k'\<ge>k1.
      QuadTree_new k' G s1 (t_x t) (t_y t) (nhalf (t_width t)) (nhalf (t_height t))
        (t_maxElements t) (t_maxDepth t) [] (Some tree) = Inr (c1, s2)"
    by (auto simp: new_object_def)
  from loop_split.IH(2) obtain k2 where
    k2: "\<forall>k'\<ge>k2.
      QuadTree_new k' G s2 (nadd (t_x t) (nhalf (t_width t))) (t_y t)
        (nhalf (t_width t)) (nhalf (t_height t))
        (t_maxElements t) (t_maxDepth t) [] (Some tree) = Inr (c2, s3)"
    by (auto simp: new_object_def)
  from loop_split.IH(3) obtain k3 where
    k3: "\<forall>k'\<ge>k3.
      QuadTree_new k' G s3 (t_x t) (nadd (t_y t) (nhalf (t_height t)))
        (nhalf (t_width t)) (nhalf (t_height t))
        (t_maxElements t) (t_maxDepth t) [] (Some tree) = Inr (c3, s4)"
    by (auto simp: new_object_def)
  from loop_split.IH(4) obtain k4 where
    k4: "\<forall>k'\<ge>k4.
      QuadTree_new k' G s4 (nadd (t_x t) (nhalf (t_width t))) (nadd (t_y t) (nhalf (t_height t)))
        (nhalf (t_width t)) (nhalf (t_height t))
        (t_maxElements t) (t_maxDepth t) [] (Some tree) = Inr (c4, s5)"
    by (auto simp: new_object_def)
  from loop_split.IH(5) obtain k5 where
    k5: "\<forall>k'\<ge>k5.
      AddElement_loop k' G e rt pool (set_children tree [c1, c2, c3, c4] s5) = Inr s'"
    by auto
  define K where "K = max k1 (max k2 (max k3 (max k4 k5)))"
  have "AddElement_loop k' G e rt (pool @ [tree]) s = Inr s'" if "Suc K \<le> k'" for k'
  proof -
    from that obtain k where k': "k' = Suc k" and "K \<le> k" by (rule ge_SucE)
    then have "k1 \<le> k" "k2 \<le> k" "k3 \<le> k" "k4 \<le> k" "k5 \<le> k"
      by (simp_all add: K_def)
    then show ?thesis
      unfolding k' using loop_split.hyps(1-5) k1 k2 k3 k4 k5
      by (simp add: Let_def)
  qed
  then show ?case by blast
next
  case (loop_stay G e s tree s1 rt pool s')
  then obtain k where k: "\<And>k'. k \<le> k' \<Longrightarrow> AddElement_loop k' G e rt pool s1 = Inr s'"
    by blast
  have "AddElement_loop k' G e rt (pool @ [tree]) s = Inr s'" if "Suc k \<le> k'" for k'
    using that loop_stay.hyps k by (elim ge_SucE) (simp add: Let_def)
  then show ?case by blast
next
  case (new_root obj x y width height maxElements maxDepth G s inits s')
  then obtain k where k: "\<And>k'. k \<le> k' \<Longrightarrow>
      QuadTree_init k' G (next_addr s) inits (init_root (next_addr s) (alloc obj s)) = Inr s'"
    by blast
  have "QuadTree_new k' G s (t_x obj) (t_y obj) (t_width obj) (t_height obj)
          (t_maxElements obj) (t_maxDepth obj) inits (t_parent obj) = Inr (next_addr s, s')"
    if "Suc k \<le> k'" for k'
    using that k unfolding new_root.hyps
    by (elim ge_SucE) (simp add: Let_def new_object_def)
  then show ?case by blast
next
  case (new_child obj x y width height maxElements maxDepth p s1 s G s' inits)
  then obtain k where k: "\<And>k'. k \<le> k' \<Longrightarrow>
      QuadTree_init k' G (next_addr s) (t_elements (nodes s1 p)) s1 = Inr s'"
    by blast
  have "QuadTree_new k' G s (t_x obj) (t_y obj) (t_width obj) (t_height obj)
          (t_maxElements obj) (t_maxDepth obj) inits (t_parent obj) = Inr (next_addr s, s')"
    if "Suc k \<le> k'" for k'
    using that k unfolding new_child.hyps
    by (elim ge_SucE) (simp add: Let_def new_object_def)
  then show ?case by blast
next
  case (init_nil G this s)
  have "QuadTree_init k' G this [] s = Inr s" if "Suc 0 \<le> k'" for k'
    using that by (elim ge_SucE) simp
  then show ?case by blast
next
  case (init_cons G s this el s1 els s')
  then obtain k1 k2 where
    k1: "\<And>k'. k1 \<le> k' \<Longrightarrow> AddElement k' G s this el =
          Inr (length (elParents_of s (rootTree s this) el)
                 < length (elParents_of s1 (rootTree s this) el), s1)" and
    k2: "\<And>k'. k2 \<le> k' \<Longrightarrow> QuadTree_init k' G this els s1 = Inr s'"
    by blast
  have "QuadTree_init k' G this (el # els) s = Inr s'" if "Suc (max k1 k2) \<le> k'" for k'
  proof -
    from that obtain k where k': "k' = Suc k" and "max k1 k2 \<le> k" by (rule ge_SucE)
    then have "k1 \<le> k" "k2 \<le> k" by simp_all
    then show ?thesis unfolding k' using k1 k2 by (simp del: AddElement.simps)
  qed
  then show ?case by blast
next
  case (add s this e elParents s0 G s')
  then obtain k where k: "\<And>k'. k \<le> k' \<Longrightarrow>
      AddElement_loop k' G e (rootTree s this) [this] s0 = Inr s'"
    by blast
  have l: "elParents = elParents_of s (rootTree s this) e"
    using priv_GetParentsForElement_create(1) [OF add.hyps(1)] by simp
  have "AddElement k' G s this e =
          Inr (length (elParents_of s (rootTree s this) e)
                 < length (elParents_of s' (rootTree s this) e), s')"
    if "Suc k \<le> k'" for k'
    using that k add.hyps(1) l
    by (elim ge_SucE) (simp add: Let_def del: AddElement_loop.simps)
  then show ?case by blast
qed

section \<open>Well-formed heaps\<close>

text \<open>
  The levels left below a node before the depth limit, and the shape of the heaps the
  constructor and the operations build: the root of every node is a constructed node
  that holds an owner index, a node has at most four children, a split node is above
  the depth limit of its tree (if there is one), and a child is one level below its
  parent, under the same limit.
\<close>

definition levels :: "QuadTree \<Rightarrow> nat" where
  "levels t = nat (t_maxDepth t - t_depth t)"

definition well_formed :: "heap \<Rightarrow> bool" where
  "well_formed s \<longleftrightarrow>
     (\<forall>a < next_addr s.
        rootTree s a < next_addr s \<and>
        t_elementsParents (nodes s (rootTree s a)) \<noteq> None \<and>
        length (t_children (nodes s a)) \<le> 4 \<and>
        (IsSplit (nodes s a) \<and> 0 \<le> t_maxDepth (nodes s a) \<longrightarrow>
           t_depth (nodes s a) < t_maxDepth (nodes s a)) \<and>
        (\<forall>c \<in> set (t_children (nodes s a)).
           c < next_addr s \<and>
           t_depth (nodes s c) = t_depth (nodes s a) + 1 \<and>
           t_maxDepth (nodes s c) = t_maxDepth (nodes s a)))"

text \<open>Two heaps with the same nodes up to their elements and their index entries.\<close>

definition same_shape :: "heap \<Rightarrow> heap \<Rightarrow> bool" where
  "same_shape s s' \<longleftrightarrow>
     next_addr s' = next_addr s \<and>
     (\<forall>a. fixed_fields (nodes s' a) = fixed_fields (nodes s a) \<and>
          t_children (nodes s' a) = t_children (nodes s a) \<and>
          (t_elementsParents (nodes s' a) = None \<longleftrightarrow> t_elementsParents (nodes s a) = None))"

lemma same_shape_refl [simp]: "same_shape s s"
  by (simp add: same_shape_def)

lemma same_shape_trans: "same_shape s s1 \<Longrightarrow> same_shape s1 s2 \<Longrightarrow> same_shape s s2"
  by (simp add: same_shape_def)

lemma same_shape_fields:
  assumes "same_shape s s'"
  shows "next_addr s' = next_addr s" "rootTree s' a = rootTree s a"
    "t_depth (nodes s' a) = t_depth (nodes s a)"
    "t_maxDepth (nodes s' a) = t_maxDepth (nodes s a)"
    "t_children (nodes s' a) = t_children (nodes s a)"
    "IsSplit (nodes s' a) = IsSplit (nodes s a)"
    "levels (nodes s' a) = levels (nodes s a)"
    "inside G e (nodes s' a) = inside G e (nodes s a)"
    "(t_elementsParents (nodes s' a) = None) = (t_elementsParents (nodes s a) = None)"
proof -
  from assms have f: "fixed_fields (nodes s' a) = fixed_fields (nodes s a)"
    and c: "t_children (nodes s' a) = t_children (nodes s a)"
    and i: "(t_elementsParents (nodes s' a) = None) = (t_elementsParents (nodes s a) = None)"
    and n: "next_addr s' = next_addr s"
    by (simp_all add: same_shape_def)
  from f c i n show "next_addr s' = next_addr s" "rootTree s' a = rootTree s a"
    "t_depth (nodes s' a) = t_depth (nodes s a)"
    "t_maxDepth (nodes s' a) = t_maxDepth (nodes s a)"
    "t_children (nodes s' a) = t_children (nodes s a)"
    "IsSplit (nodes s' a) = IsSplit (nodes s a)"
    "levels (nodes s' a) = levels (nodes s a)"
    "inside G e (nodes s' a) = inside G e (nodes s a)"
    "(t_elementsParents (nodes s' a) = None) = (t_elementsParents (nodes s a) = None)"
    by (simp_all add: fixed_fields_def rootTree_def IsSplit_def levels_def inside_def)
qed

lemma same_shape_well_formed:
  assumes "same_shape s s'" and "well_formed s"
  shows "well_formed s'"
  using assms(2) unfolding well_formed_def same_shape_fields [OF assms(1)] .

lemma same_shape_record_element [simp]: "same_shape s (record_element rt e tree s)"
  by (simp add: same_shape_def fixed_fields_def)

lemma same_shape_set_elParents [simp]: "same_shape s (set_elParents rt e v s)"
  by (simp add: same_shape_def fixed_fields_def)

lemma same_shape_remove_from [simp]: "same_shape s (remove_from tree e s)"
  by (simp add: same_shape_def fixed_fields_def)

lemma same_shape_pop_elParents [simp]: "same_shape s (pop_elParents rt e s)"
  by (simp add: same_shape_def fixed_fields_def)

lemma same_shape_create:
  "priv_GetParentsForElement s this e True = Inr (r, s0) \<Longrightarrow> same_shape s s0"
  by (drule priv_GetParentsForElement_create(3)) auto

lemma extends_levels:
  "extends s s' \<Longrightarrow> a < next_addr s \<Longrightarrow> levels (nodes s' a) = levels (nodes s a)"
  by (simp add: levels_def extends_fixed)


lemma new_object_simps [simp]:
  "t_x (new_object x y width height maxElements maxDepth parent) = x"
  "t_y (new_object x y width height maxElements maxDepth parent) = y"
  "t_width (new_object x y width height maxElements maxDepth parent) = width"
  "t_height (new_object x y width height maxElements maxDepth parent) = height"
  "t_maxElements (new_object x y width height maxElements maxDepth parent) = maxElements"
  "t_maxDepth (new_object x y width height maxElements maxDepth parent) = maxDepth"
  "t_parent (new_object x y width height maxElements maxDepth parent) = parent"
  "t_depth (new_object x y width height maxElements maxDepth parent) = 0"
  "t_root (new_object x y width height maxElements maxDepth parent) = None"
  "t_children (new_object x y width height maxElements maxDepth parent) = []"
  "t_elements (new_object x y width height maxElements maxDepth parent) = []"
  "t_elementsParents (new_object x y width height maxElements maxDepth parent) = None"
  by (simp_all add: new_object_def)

text \<open>A heap that agrees with a well-formed one below \<open>next_addr\<close> and has one more node.\<close>

lemma well_formed_grow:
  assumes wf: "well_formed s"
      and n: "next_addr s' = Suc (next_addr s)"
      and old: "\<And>a. a < next_addr s \<Longrightarrow> nodes s' a = nodes s a"
      and r: "rootTree s' (next_addr s) < Suc (next_addr s)"
      and i: "t_elementsParents (nodes s' (rootTree s' (next_addr s))) \<noteq> None"
      and c: "t_children (nodes s' (next_addr s)) = []"
  shows "well_formed s'"
  unfolding well_formed_def
proof (intro allI impI)
  fix a assume "a < next_addr s'"
  then consider "a < next_addr s" | "a = next_addr s" using n by linarith
  then show "rootTree s' a < next_addr s' \<and>
        t_elementsParents (nodes s' (rootTree s' a)) \<noteq> None \<and>
        length (t_children (nodes s' a)) \<le> 4 \<and>
        (IsSplit (nodes s' a) \<and> 0 \<le> t_maxDepth (nodes s' a) \<longrightarrow>
           t_depth (nodes s' a) < t_maxDepth (nodes s' a)) \<and>
        (\<forall>c \<in> set (t_children (nodes s' a)).
           c < next_addr s' \<and>
           t_depth (nodes s' c) = t_depth (nodes s' a) + 1 \<and>
           t_maxDepth (nodes s' c) = t_maxDepth (nodes s' a))"
  proof cases
    case 1
    from wf 1 have w: "rootTree s a < next_addr s"
        "t_elementsParents (nodes s (rootTree s a)) \<noteq> None"
        "length (t_children (nodes s a)) \<le> 4"
        "IsSplit (nodes s a) \<and> 0 \<le> t_maxDepth (nodes s a) \<longrightarrow>
           t_depth (nodes s a) < t_maxDepth (nodes s a)"
        "\<forall>c \<in> set (t_children (nodes s a)).
           c < next_addr s \<and>
           t_depth (nodes s c) = t_depth (nodes s a) + 1 \<and>
           t_maxDepth (nodes s c) = t_maxDepth (nodes s a)"
      unfolding well_formed_def by blast+
    have na: "nodes s' a = nodes s a" using 1 by (rule old)
    have ra: "rootTree s' a = rootTree s a" by (simp add: rootTree_def na)
    have nr: "nodes s' (rootTree s a) = nodes s (rootTree s a)" using w(1) by (rule old)
    have nc: "nodes s' c = nodes s c" if "c \<in> set (t_children (nodes s a))" for c
      using w(5) that by (intro old) blast
    show ?thesis
      unfolding ra na nr n using w nc by auto
  next
    case 2
    show ?thesis
      unfolding 2 n using r i c by (simp add: IsSplit_def)
  qed
qed

lemma well_formed_new_root:
  assumes "well_formed s"
  shows "well_formed (init_root (next_addr s)
           (alloc (new_object x y width height maxElements maxDepth None) s))"
  using assms
  by (rule well_formed_grow) (simp_all add: rootTree_def)

lemma well_formed_new_child:
  assumes wf: "well_formed s" and p: "p < next_addr s" and o: "t_children obj = []"
  shows "well_formed (init_child (next_addr s) p (alloc obj s))"
proof -
  from wf p have r: "rootTree s p < next_addr s"
    "t_elementsParents (nodes s (rootTree s p)) \<noteq> None"
    unfolding well_formed_def by blast+
  have rp: "rootTree (alloc obj s) p = rootTree s p"
    using p by (simp add: rootTree_def)
  show ?thesis
    using wf
  proof (rule well_formed_grow)
    show "rootTree (init_child (next_addr s) p (alloc obj s)) (next_addr s) < Suc (next_addr s)"
      using r(1) by (simp add: rootTree_def [of "init_child _ _ _"] rp)
    show "t_elementsParents (nodes (init_child (next_addr s) p (alloc obj s))
            (rootTree (init_child (next_addr s) p (alloc obj s)) (next_addr s))) \<noteq> None"
      using r by (simp add: rootTree_def [of "init_child _ _ _"] rp)
    show "t_children (nodes (init_child (next_addr s) p (alloc obj s)) (next_addr s)) = []"
      using o by simp
  qed simp_all
qed

text \<open>The depth and the limit of a node the constructor has returned.\<close>

lemma new_run_child:
  assumes "new_run G s obj inits a s'" and "t_parent obj = Some p"
  obtains s1 where "s1 = init_child (next_addr s) p (alloc obj s)"
    "init_run G (next_addr s) (t_elements (nodes s1 p)) s1 s'" "a = next_addr s"
  using assms(1)
proof (cases rule: new_run.cases)
  case (new_root x y width height maxElements maxDepth)
  then have "t_parent obj = None" by simp
  with assms(2) show ?thesis by simp
next
  case (new_child x y width height maxElements maxDepth p' s1)
  then have "t_parent obj = Some p'" by simp
  with assms(2) have "p' = p" by simp
  with new_child that show ?thesis by simp
qed

lemma new_run_root:
  assumes "new_run G s obj inits a s'" and "t_parent obj = None"
  obtains "init_run G (next_addr s) inits (init_root (next_addr s) (alloc obj s)) s'"
    "a = next_addr s"
  using assms(1)
proof (cases rule: new_run.cases)
  case (new_root x y width height maxElements maxDepth)
  with that show ?thesis by simp
next
  case (new_child x y width height maxElements maxDepth p' s1)
  then have "t_parent obj = Some p'" by simp
  with assms(2) show ?thesis by simp
qed

lemma new_run_child_fields:
  assumes run: "new_run G s obj inits a s'" and par: "t_parent obj = Some p"
      and p: "p < next_addr s" and d: "t_depth obj = 0"
  shows "a = next_addr s" "a < next_addr s'" "extends s s'"
    "t_depth (nodes s' a) = t_depth (nodes s p) + 1"
    "t_maxDepth (nodes s' a) = t_maxDepth obj"
proof -
  note r = run_extends(2) [OF run]
  from r show "extends s s'" by (rule conjunct1)
  from r have r2: "a = next_addr s \<and> a < next_addr s'" by (rule conjunct2)
  from r2 show a: "a = next_addr s" by (rule conjunct1)
  from r2 show "a < next_addr s'" by (rule conjunct2)
  from run par obtain s1 where
    s1: "s1 = init_child (next_addr s) p (alloc obj s)" and
    i: "init_run G (next_addr s) (t_elements (nodes s1 p)) s1 s'"
    by (rule new_run_child)
  have e: "extends s1 s'" using i by (rule run_extends(3))
  have n: "next_addr s < next_addr s1" by (simp add: s1)
  have 1: "t_depth (nodes s' a) = t_depth (nodes s1 a)"
    unfolding a using e n by (rule extends_fixed)
  have 2: "t_maxDepth (nodes s' a) = t_maxDepth (nodes s1 a)"
    unfolding a using e n by (rule extends_fixed)
  have 3: "t_depth (nodes s1 a) = t_depth (nodes s p) + 1"
    unfolding a s1 using p by simp
  have 4: "t_maxDepth (nodes s1 a) = t_maxDepth obj"
    unfolding a s1 by simp
  from 1 3 show "t_depth (nodes s' a) = t_depth (nodes s p) + 1" by simp
  from 2 4 show "t_maxDepth (nodes s' a) = t_maxDepth obj" by simp
qed


lemma child_later:
  assumes run: "new_run G s obj inits c s'" and par: "t_parent obj = Some p"
      and p: "p < next_addr s" and d: "t_depth obj = 0" and e: "extends s' s''"
  shows "c < next_addr s''" "next_addr s \<le> c"
    "t_depth (nodes s'' c) = t_depth (nodes s p) + 1"
    "t_maxDepth (nodes s'' c) = t_maxDepth obj"
proof -
  note f = new_run_child_fields [OF run par p d]
  from f(2) extends_next [OF e] show "c < next_addr s''" by simp
  from f(1) show "next_addr s \<le> c" by simp
  from extends_fixed(7) [OF e f(2)] f(4)
  show "t_depth (nodes s'' c) = t_depth (nodes s p) + 1" by simp
  from extends_fixed(9) [OF e f(2)] f(5)
  show "t_maxDepth (nodes s'' c) = t_maxDepth obj" by simp
qed

lemma well_formed_set_children:
  assumes wf: "well_formed s" and tree: "tree < next_addr s"
      and len: "length cs \<le> 4"
      and lim: "0 \<le> t_maxDepth (nodes s tree) \<longrightarrow>
                t_depth (nodes s tree) < t_maxDepth (nodes s tree)"
      and cs: "\<forall>c \<in> set cs. c < next_addr s \<and>
                 t_depth (nodes s c) = t_depth (nodes s tree) + 1 \<and>
                 t_maxDepth (nodes s c) = t_maxDepth (nodes s tree)"
  shows "well_formed (set_children tree cs s)"
  unfolding well_formed_def
proof (intro allI impI)
  fix a assume "a < next_addr (set_children tree cs s)"
  then have a: "a < next_addr s" by simp
  from wf a have w: "rootTree s a < next_addr s"
      "t_elementsParents (nodes s (rootTree s a)) \<noteq> None"
      "length (t_children (nodes s a)) \<le> 4"
      "IsSplit (nodes s a) \<and> 0 \<le> t_maxDepth (nodes s a) \<longrightarrow>
         t_depth (nodes s a) < t_maxDepth (nodes s a)"
      "\<forall>c \<in> set (t_children (nodes s a)).
         c < next_addr s \<and>
         t_depth (nodes s c) = t_depth (nodes s a) + 1 \<and>
         t_maxDepth (nodes s c) = t_maxDepth (nodes s a)"
    unfolding well_formed_def by blast+
  let ?s = "set_children tree cs s"
  show "rootTree ?s a < next_addr ?s \<and>
        t_elementsParents (nodes ?s (rootTree ?s a)) \<noteq> None \<and>
        length (t_children (nodes ?s a)) \<le> 4 \<and>
        (IsSplit (nodes ?s a) \<and> 0 \<le> t_maxDepth (nodes ?s a) \<longrightarrow>
           t_depth (nodes ?s a) < t_maxDepth (nodes ?s a)) \<and>
        (\<forall>c \<in> set (t_children (nodes ?s a)).
           c < next_addr ?s \<and>
           t_depth (nodes ?s c) = t_depth (nodes ?s a) + 1 \<and>
           t_maxDepth (nodes ?s c) = t_maxDepth (nodes ?s a))"
  proof (cases "a = tree")
    case True
    show ?thesis
      unfolding True using w(1,2) len lim cs unfolding True
      by (simp add: IsSplit_def)
  next
    case False
    then show ?thesis
      using w by (simp add: IsSplit_def)
  qed
qed

text \<open>A leaf that has been given four freshly constructed children.\<close>

lemma well_formed_split:
  assumes wf: "well_formed s5" and tree: "tree < next_addr s1"
      and ms: "may_split (nodes s1 tree)"
      and r1: "new_run G s1 o1 [] c1 s2" and r2: "new_run G s2 o2 [] c2 s3"
      and r3: "new_run G s3 o3 [] c3 s4" and r4: "new_run G s4 o4 [] c4 s5"
      and par: "t_parent o1 = Some tree" "t_parent o2 = Some tree"
               "t_parent o3 = Some tree" "t_parent o4 = Some tree"
      and dep: "t_depth o1 = 0" "t_depth o2 = 0" "t_depth o3 = 0" "t_depth o4 = 0"
      and lim: "t_maxDepth o1 = t_maxDepth (nodes s1 tree)"
               "t_maxDepth o2 = t_maxDepth (nodes s1 tree)"
               "t_maxDepth o3 = t_maxDepth (nodes s1 tree)"
               "t_maxDepth o4 = t_maxDepth (nodes s1 tree)"
  shows "well_formed (set_children tree [c1, c2, c3, c4] s5)"
proof -
  note e1 = run_extends(2) [OF r1, THEN conjunct1]
  note e2 = run_extends(2) [OF r2, THEN conjunct1]
  note e3 = run_extends(2) [OF r3, THEN conjunct1]
  note e4 = run_extends(2) [OF r4, THEN conjunct1]
  note e12 = extends_trans [OF e1 e2]
  note e13 = extends_trans [OF e12 e3]
  note e14 = extends_trans [OF e13 e4]
  note e34 = extends_trans [OF e3 e4]
  note e24 = extends_trans [OF e2 e34]
  have t2: "tree < next_addr s2" using tree extends_next [OF e1] by simp
  have t3: "tree < next_addr s3" using tree extends_next [OF e12] by simp
  have t4: "tree < next_addr s4" using tree extends_next [OF e13] by simp
  have t5: "tree < next_addr s5" using tree extends_next [OF e14] by simp
  have d2: "t_depth (nodes s2 tree) = t_depth (nodes s1 tree)"
    using e1 tree by (rule extends_fixed)
  have d3: "t_depth (nodes s3 tree) = t_depth (nodes s1 tree)"
    using e12 tree by (rule extends_fixed)
  have d4: "t_depth (nodes s4 tree) = t_depth (nodes s1 tree)"
    using e13 tree by (rule extends_fixed)
  have d5: "t_depth (nodes s5 tree) = t_depth (nodes s1 tree)"
    using e14 tree by (rule extends_fixed)
  have m5: "t_maxDepth (nodes s5 tree) = t_maxDepth (nodes s1 tree)"
    using e14 tree by (rule extends_fixed)
  note k1 = child_later [OF r1 par(1) tree dep(1) e24]
  note k2 = child_later [OF r2 par(2) t2 dep(2) e34]
  note k3 = child_later [OF r3 par(3) t3 dep(3) e4]
  note k4 = child_later [OF r4 par(4) t4 dep(4) extends_refl]
  have lim5: "0 \<le> t_maxDepth (nodes s5 tree) \<longrightarrow>
              t_depth (nodes s5 tree) < t_maxDepth (nodes s5 tree)"
    using ms unfolding d5 m5 by (auto simp: may_split_def)
  have cs: "\<forall>c \<in> set [c1, c2, c3, c4]. c < next_addr s5 \<and>
                 t_depth (nodes s5 c) = t_depth (nodes s5 tree) + 1 \<and>
                 t_maxDepth (nodes s5 c) = t_maxDepth (nodes s5 tree)"
    unfolding d5 m5 using k1 k2 k3 k4 d2 d3 d4 lim by simp
  from wf t5 _ lim5 cs show ?thesis
    by (rule well_formed_set_children) simp
qed

lemma run_well_formed:
  "loop_run G e rt pool s s' \<Longrightarrow> well_formed s \<Longrightarrow> \<forall>a \<in> set pool. a < next_addr s \<Longrightarrow>
     well_formed s'"
  "new_run G s obj inits a s' \<Longrightarrow> well_formed s \<Longrightarrow>
     \<forall>p. t_parent obj = Some p \<longrightarrow> p < next_addr s \<Longrightarrow> well_formed s'"
  "init_run G this els s s' \<Longrightarrow> well_formed s \<Longrightarrow> this < next_addr s \<Longrightarrow> well_formed s'"
  "add_run G s this e s' \<Longrightarrow> well_formed s \<Longrightarrow> this < next_addr s \<Longrightarrow> well_formed s'"
proof (induction rule: loop_run_new_run_init_run_add_run.inducts)
  case (loop_done G e rt s)
  then show ?case by simp
next
  case (loop_skip G e s tree rt pool s')
  then show ?case by simp
next
  case (loop_descend G e s tree s1 rt pool s')
  have wf1: "well_formed s1"
    unfolding loop_descend.hyps
    using same_shape_record_element loop_descend.prems(1) by (rule same_shape_well_formed)
  have tree: "tree < next_addr s" using loop_descend.prems(2) by simp
  have "\<forall>c \<in> set (t_children (nodes s1 tree)). c < next_addr s1"
    using wf1 tree unfolding loop_descend.hyps well_formed_def by simp
  then have "\<forall>a \<in> set (pool @ t_children (nodes s1 tree)). a < next_addr s1"
    using loop_descend.prems(2) unfolding loop_descend.hyps by auto
  with wf1 show ?case by (rule loop_descend.IH)
next
  case (loop_split G e s tree s1 rt t c1 s2 c2 s3 c3 s4 c4 s5 pool s')
  have wf1: "well_formed s1"
    unfolding loop_split.hyps
    using same_shape_record_element loop_split.prems(1) by (rule same_shape_well_formed)
  have tree: "tree < next_addr s1" using loop_split.prems(2) loop_split.hyps by simp
  note e1 = run_extends(2) [OF loop_split.hyps(6), THEN conjunct1]
  note e2 = run_extends(2) [OF loop_split.hyps(7), THEN conjunct1]
  note e3 = run_extends(2) [OF loop_split.hyps(8), THEN conjunct1]
  note e4 = run_extends(2) [OF loop_split.hyps(9), THEN conjunct1]
  note e12 = extends_trans [OF e1 e2]
  note e13 = extends_trans [OF e12 e3]
  note e14 = extends_trans [OF e13 e4]
  have t2: "tree < next_addr s2" using tree extends_next [OF e1] by simp
  have t3: "tree < next_addr s3" using tree extends_next [OF e12] by simp
  have t4: "tree < next_addr s4" using tree extends_next [OF e13] by simp
  have wf2: "well_formed s2" using wf1 tree by (intro loop_split.IH(1)) simp_all
  have wf3: "well_formed s3" using wf2 t2 by (intro loop_split.IH(2)) simp_all
  have wf4: "well_formed s4" using wf3 t3 by (intro loop_split.IH(3)) simp_all
  have wf5: "well_formed s5" using wf4 t4 by (intro loop_split.IH(4)) simp_all
  have ms: "may_split (nodes s1 tree)" using loop_split.hyps by simp
  have wf6: "well_formed (set_children tree [c1, c2, c3, c4] s5)"
    using wf5 tree ms loop_split.hyps(6-9)
    by (rule well_formed_split) (simp_all add: loop_split.hyps(3))
  have "\<forall>a \<in> set pool. a < next_addr (set_children tree [c1, c2, c3, c4] s5)"
    using loop_split.prems(2) extends_next [OF e14] loop_split.hyps(2) by auto
  with wf6 show ?case by (rule loop_split.IH(5))
next
  case (loop_stay G e s tree s1 rt pool s')
  have wf1: "well_formed s1"
    unfolding loop_stay.hyps
    using same_shape_record_element loop_stay.prems(1) by (rule same_shape_well_formed)
  have "\<forall>a \<in> set pool. a < next_addr s1"
    using loop_stay.prems(2) unfolding loop_stay.hyps by auto
  with wf1 show ?case by (rule loop_stay.IH)
next
  case (new_root obj x y width height maxElements maxDepth G s inits s')
  have "well_formed (init_root (next_addr s) (alloc obj s))"
    unfolding new_root.hyps using new_root.prems(1) by (rule well_formed_new_root)
  then show ?case by (rule new_root.IH) simp
next
  case (new_child obj x y width height maxElements maxDepth p s1 s G s' inits)
  have p: "p < next_addr s" using new_child.prems(2) new_child.hyps(1) by simp
  have "well_formed s1"
    unfolding new_child.hyps(2) using new_child.prems(1) p
    by (rule well_formed_new_child) (simp add: new_child.hyps(1))
  then show ?case by (rule new_child.IH) (simp add: new_child.hyps(2))
next
  case (init_nil G this s)
  then show ?case by simp
next
  case (init_cons G s this el s1 els s')
  have wf1: "well_formed s1" using init_cons.prems by (rule init_cons.IH(1))
  have "this < next_addr s1"
    using init_cons.prems(2) extends_next [OF run_extends(4) [OF init_cons.hyps(1)]] by simp
  with wf1 show ?case by (rule init_cons.IH(2))
next
  case (add s this e elParents s0 G s')
  note ss = same_shape_create [OF add.hyps(1)]
  have wf0: "well_formed s0" using ss add.prems(1) by (rule same_shape_well_formed)
  have "\<forall>a \<in> set [this]. a < next_addr s0"
    using add.prems(2) same_shape_fields(1) [OF ss] by simp
  with wf0 show ?case by (rule add.IH)
qed

section \<open>Insertion under a depth limit returns\<close>

text \<open>
  Under a depth limit every insertion returns.  The loop of \<open>AddElement\<close> is measured
  by the weight of its pool, in which a node with \<open>k\<close> levels left counts for \<open>5 ^ k\<close>,
  more than four nodes one level further down.
\<close>

definition weight :: "heap \<Rightarrow> addr list \<Rightarrow> nat" where
  "weight s pool = sum_list (map (\<lambda>a. 5 ^ levels (nodes s a)) pool)"

definition limited :: "nat \<Rightarrow> heap \<Rightarrow> addr list \<Rightarrow> bool" where
  "limited m s pool \<longleftrightarrow>
     (\<forall>a \<in> set pool. a < next_addr s \<and> 0 \<le> t_maxDepth (nodes s a) \<and>
                        levels (nodes s a) \<le> m)"

lemma weight_simps [simp]:
  "weight s [] = 0"
  "weight s (pool @ pool') = weight s pool + weight s pool'"
  "weight s [a] = 5 ^ levels (nodes s a)"
  by (simp_all add: weight_def)

lemma limited_simps [simp]:
  "limited m s []"
  "limited m s (pool @ pool') \<longleftrightarrow> limited m s pool \<and> limited m s pool'"
  by (auto simp: limited_def)

lemma limited_extends:
  assumes "extends s s'" and "limited m s pool"
  shows "limited m s' pool" and "weight s' pool = weight s pool"
proof -
  have a: "a < next_addr s' \<and> t_maxDepth (nodes s' a) = t_maxDepth (nodes s a) \<and>
           levels (nodes s' a) = levels (nodes s a)" if "a \<in> set pool" for a
  proof -
    from that assms(2) have "a < next_addr s" by (simp add: limited_def)
    with assms(1) show ?thesis
      using extends_next extends_fixed(9) extends_levels by fastforce
  qed
  with assms(2) show "limited m s' pool" by (simp add: limited_def)
  have "map (\<lambda>a. (5::nat) ^ levels (nodes s' a)) pool =
        map (\<lambda>a. 5 ^ levels (nodes s a)) pool"
    by (rule map_cong) (simp_all add: a)
  then show "weight s' pool = weight s pool" by (simp only: weight_def)
qed

lemma weight_children:
  assumes "\<forall>c \<in> set cs. levels (nodes s c) < L" and "length cs \<le> 4"
  shows "weight s cs < 5 ^ L"
proof (cases L)
  case 0
  with assms(1) have "cs = []" by (cases cs) auto
  then show ?thesis by simp
next
  case (Suc k)
  have "weight s cs \<le> length cs * 5 ^ k"
    using assms(1) unfolding Suc
  proof (induction cs)
    case Nil
    show ?case by simp
  next
    case (Cons c cs)
    then have "levels (nodes s c) \<le> k" by simp
    then have "(5::nat) ^ levels (nodes s c) \<le> 5 ^ k" by (simp add: power_increasing)
    moreover have "weight s cs \<le> length cs * 5 ^ k" using Cons by simp
    moreover have "weight s (c # cs) = 5 ^ levels (nodes s c) + weight s cs"
      by (simp add: weight_def)
    ultimately show ?case by (simp add: add_mono power_increasing)
  qed
  also have "\<dots> \<le> 4 * 5 ^ k" using assms(2) by simp
  also have "\<dots> < 5 ^ L" unfolding Suc by simp
  finally show ?thesis .
qed

lemma create_returns:
  assumes "t_elementsParents (nodes s (rootTree s this)) \<noteq> None"
  shows "\<exists>l s0. priv_GetParentsForElement s this e True = Inr (Some l, s0)"
proof -
  from assms obtain ep where ep: "t_elementsParents (nodes s (rootTree s this)) = Some ep"
    by blast
  show ?thesis
    by (cases "ep e") (simp_all add: priv_GetParentsForElement_def Let_def ep)
qed

lemma init_exists:
  assumes A: "\<And>s this e. well_formed s \<Longrightarrow> this < next_addr s \<Longrightarrow>
                0 \<le> t_maxDepth (nodes s this) \<Longrightarrow> levels (nodes s this) < m \<Longrightarrow>
                \<exists>s'. add_run G s this e s'"
  shows "well_formed s \<Longrightarrow> this < next_addr s \<Longrightarrow> 0 \<le> t_maxDepth (nodes s this) \<Longrightarrow>
         levels (nodes s this) < m \<Longrightarrow> \<exists>s'. init_run G this els s s'"
proof (induction els arbitrary: s)
  case Nil
  show ?case by (blast intro: init_nil)
next
  case (Cons el els)
  from A [OF Cons.prems] obtain s1 where r: "add_run G s this el s1" by blast
  note e = run_extends(4) [OF r]
  have wf1: "well_formed s1" using r Cons.prems(1,2) by (rule run_well_formed(4))
  have t1: "this < next_addr s1" using Cons.prems(2) extends_next [OF e] by simp
  have m1: "0 \<le> t_maxDepth (nodes s1 this)"
    using Cons.prems(3) extends_fixed(9) [OF e Cons.prems(2)] by simp
  have l1: "levels (nodes s1 this) < m"
    using Cons.prems(4) extends_levels [OF e Cons.prems(2)] by simp
  from Cons.IH [OF wf1 t1 m1 l1] obtain s' where "init_run G this els s1 s'" by blast
  with r show ?case by (blast intro: init_cons)
qed

lemma child_exists:
  assumes A: "\<And>s this e. well_formed s \<Longrightarrow> this < next_addr s \<Longrightarrow>
                0 \<le> t_maxDepth (nodes s this) \<Longrightarrow> levels (nodes s this) < m \<Longrightarrow>
                \<exists>s'. add_run G s this e s'"
      and wf: "well_formed s" and p: "p < next_addr s"
      and lim: "0 \<le> maxDepth" and lev: "nat (maxDepth - (t_depth (nodes s p) + 1)) < m"
  shows "\<exists>a s'. new_run G s (new_object x y width height maxElements maxDepth (Some p)) inits a s'"
proof -
  let ?obj = "new_object x y width height maxElements maxDepth (Some p)"
  define s1 where "s1 = init_child (next_addr s) p (alloc ?obj s)"
  have wf1: "well_formed s1"
    unfolding s1_def using wf p by (rule well_formed_new_child) simp
  have t1: "next_addr s < next_addr s1" by (simp add: s1_def)
  have m1: "0 \<le> t_maxDepth (nodes s1 (next_addr s))"
    using lim by (simp add: s1_def)
  have l1: "levels (nodes s1 (next_addr s)) < m"
    using lev p by (simp add: s1_def levels_def)
  from init_exists [of m G, OF A wf1 t1 m1 l1] obtain s'
    where "init_run G (next_addr s) (t_elements (nodes s1 p)) s1 s'"
    by blast
  with s1_def show ?thesis by (blast intro: new_child)
qed


lemma loop_exists:
  assumes A: "\<And>s this e. well_formed s \<Longrightarrow> this < next_addr s \<Longrightarrow>
                0 \<le> t_maxDepth (nodes s this) \<Longrightarrow> levels (nodes s this) < m \<Longrightarrow>
                \<exists>s'. add_run G s this e s'"
  shows "well_formed s \<Longrightarrow> limited m s pool \<Longrightarrow> \<exists>s'. loop_run G e rt pool s s'"
proof (induction "weight s pool" arbitrary: s pool rule: less_induct)
  case less
  show ?case
  proof (cases pool rule: rev_cases)
    case Nil
    then show ?thesis by (blast intro: loop_done)
  next
    case (snoc pool' tree)
    from less.prems(2) have lp: "limited m s pool'" and lt: "limited m s [tree]"
      unfolding snoc by simp_all
    from lt have tree: "tree < next_addr s" and lim: "0 \<le> t_maxDepth (nodes s tree)"
      and lev: "levels (nodes s tree) \<le> m"
      by (simp_all add: limited_def)
    have w: "weight s pool = weight s pool' + 5 ^ levels (nodes s tree)"
      unfolding snoc by simp
    have small: "weight s pool' < weight s pool"
      unfolding w by simp
    show ?thesis
    proof (cases "inside G e (nodes s tree)")
      case False
      from less.hyps [OF small less.prems(1) lp] obtain s' where "loop_run G e rt pool' s s'"
        by blast
      with False show ?thesis unfolding snoc by (blast intro: loop_skip)
    next
      case True
      define s1 where "s1 = record_element rt e tree s"
      have e1: "extends s s1" unfolding s1_def by (rule extends_record_element)
      have wf1: "well_formed s1"
        unfolding s1_def using same_shape_record_element less.prems(1)
        by (rule same_shape_well_formed)
      note lp1 = limited_extends [OF e1 lp]
      note lt1 = limited_extends [OF e1 lt]
      from lt1(1) have tree1: "tree < next_addr s1" and lim1: "0 \<le> t_maxDepth (nodes s1 tree)"
        and lev1: "levels (nodes s1 tree) \<le> m"
        by (simp_all add: limited_def)
      have levs: "levels (nodes s1 tree) = levels (nodes s tree)"
        using lt1(2) by simp
      consider (descend) "IsSplit (nodes s1 tree)"
        | (split) "\<not> IsSplit (nodes s1 tree)" "may_split (nodes s1 tree)"
        | (stay) "\<not> IsSplit (nodes s1 tree)" "\<not> may_split (nodes s1 tree)"
        by blast
      then show ?thesis
      proof cases
        case descend
        let ?cs = "t_children (nodes s1 tree)"
        from wf1 tree1 have len: "length ?cs \<le> 4"
          and above: "t_depth (nodes s1 tree) < t_maxDepth (nodes s1 tree)"
          and cs: "\<forall>c \<in> set ?cs. c < next_addr s1 \<and>
                     t_depth (nodes s1 c) = t_depth (nodes s1 tree) + 1 \<and>
                     t_maxDepth (nodes s1 c) = t_maxDepth (nodes s1 tree)"
          using descend lim1 unfolding well_formed_def by blast+
        have lc: "\<forall>c \<in> set ?cs. levels (nodes s1 c) < levels (nodes s1 tree)"
          using cs above by (auto simp: levels_def)
        have "limited m s1 ?cs"
          unfolding limited_def using cs lc lim1 lev1 by fastforce
        with lp1(1) have l: "limited m s1 (pool' @ ?cs)" by simp
        have "weight s1 ?cs < 5 ^ levels (nodes s1 tree)"
          using lc len by (rule weight_children)
        then have "weight s1 (pool' @ ?cs) < weight s pool"
          unfolding w using lp1(2) levs by simp
        from less.hyps [OF this wf1 l] obtain s' where
          "loop_run G e rt (pool' @ ?cs) s1 s'"
          by blast
        with True s1_def descend show ?thesis
          unfolding snoc by (blast intro: loop_descend)
      next
        case split
        define t where "t = nodes s1 tree"
        have above: "t_depth (nodes s1 tree) < t_maxDepth (nodes s1 tree)"
          using split(2) lim1 by (auto simp: may_split_def)
        then have below: "nat (t_maxDepth t - (t_depth (nodes s1 tree) + 1)) < m"
          using lev1 by (simp add: levels_def t_def)
        have limt: "0 \<le> t_maxDepth t" using lim1 by (simp add: t_def)
        let ?o1 = "new_object (t_x t) (t_y t) (nhalf (t_width t)) (nhalf (t_height t))
                     (t_maxElements t) (t_maxDepth t) (Some tree)"
        let ?o2 = "new_object (nadd (t_x t) (nhalf (t_width t))) (t_y t)
                     (nhalf (t_width t)) (nhalf (t_height t))
                     (t_maxElements t) (t_maxDepth t) (Some tree)"
        let ?o3 = "new_object (t_x t) (nadd (t_y t) (nhalf (t_height t)))
                     (nhalf (t_width t)) (nhalf (t_height t))
                     (t_maxElements t) (t_maxDepth t) (Some tree)"
        let ?o4 = "new_object (nadd (t_x t) (nhalf (t_width t)))
                     (nadd (t_y t) (nhalf (t_height t)))
                     (nhalf (t_width t)) (nhalf (t_height t))
                     (t_maxElements t) (t_maxDepth t) (Some tree)"
        from child_exists [of m G, OF A wf1 tree1 limt below]
        obtain c1 s2 where r1: "new_run G s1 ?o1 [] c1 s2" by blast
        note x1 = run_extends(2) [OF r1, THEN conjunct1]
        have wf2: "well_formed s2" using r1 wf1 by (rule run_well_formed(2)) (simp add: tree1)
        have tree2: "tree < next_addr s2" using tree1 extends_next [OF x1] by simp
        have below2: "nat (t_maxDepth t - (t_depth (nodes s2 tree) + 1)) < m"
          using below extends_fixed(7) [OF x1 tree1] by simp
        from child_exists [of m G, OF A wf2 tree2 limt below2]
        obtain c2 s3 where r2: "new_run G s2 ?o2 [] c2 s3" by blast
        note x2 = extends_trans [OF x1 run_extends(2) [OF r2, THEN conjunct1]]
        have wf3: "well_formed s3" using r2 wf2 by (rule run_well_formed(2)) (simp add: tree2)
        have tree3: "tree < next_addr s3" using tree1 extends_next [OF x2] by simp
        have below3: "nat (t_maxDepth t - (t_depth (nodes s3 tree) + 1)) < m"
          using below extends_fixed(7) [OF x2 tree1] by simp
        from child_exists [of m G, OF A wf3 tree3 limt below3]
        obtain c3 s4 where r3: "new_run G s3 ?o3 [] c3 s4" by blast
        note x3 = extends_trans [OF x2 run_extends(2) [OF r3, THEN conjunct1]]
        have wf4: "well_formed s4" using r3 wf3 by (rule run_well_formed(2)) (simp add: tree3)
        have tree4: "tree < next_addr s4" using tree1 extends_next [OF x3] by simp
        have below4: "nat (t_maxDepth t - (t_depth (nodes s4 tree) + 1)) < m"
          using below extends_fixed(7) [OF x3 tree1] by simp
        from child_exists [of m G, OF A wf4 tree4 limt below4]
        obtain c4 s5 where r4: "new_run G s4 ?o4 [] c4 s5" by blast
        note x4 = extends_trans [OF x3 run_extends(2) [OF r4, THEN conjunct1]]
        have wf5: "well_formed s5" using r4 wf4 by (rule run_well_formed(2)) (simp add: tree4)
        define s6 where "s6 = set_children tree [c1, c2, c3, c4] s5"
        have wf6: "well_formed s6"
          unfolding s6_def using wf5 tree1 split(2) r1 r2 r3 r4
          by (rule well_formed_split) (simp_all add: t_def)
        have "t_children (nodes s1 tree) = []" using split(1) by (simp add: IsSplit_def)
        with x4 have x6: "extends s1 s6" unfolding s6_def by (rule extends_set_children)
        note lp6 = limited_extends [OF x6 lp1(1)]
        have "weight s6 pool' < weight s pool"
          using lp6(2) lp1(2) small by simp
        from less.hyps [OF this wf6 lp6(1)] obtain s' where l: "loop_run G e rt pool' s6 s'"
          by blast
        have "loop_run G e rt (pool' @ [tree]) s s'"
          using True s1_def t_def
        proof (rule loop_split)
          show "\<not> IsSplit t" "may_split t" using split by (simp_all add: t_def)
          show "new_run G s1 ?o1 [] c1 s2" by (rule r1)
          show "new_run G s2 ?o2 [] c2 s3" by (rule r2)
          show "new_run G s3 ?o3 [] c3 s4" by (rule r3)
          show "new_run G s4 ?o4 [] c4 s5" by (rule r4)
          show "loop_run G e rt pool' (set_children tree [c1, c2, c3, c4] s5) s'"
            using l by (simp add: s6_def)
        qed
        then show ?thesis unfolding snoc by blast
      next
        case stay
        have "weight s1 pool' < weight s pool"
          using lp1(2) small by simp
        from less.hyps [OF this wf1 lp1(1)] obtain s' where "loop_run G e rt pool' s1 s'"
          by blast
        with True s1_def stay show ?thesis
          unfolding snoc by (blast intro: loop_stay)
      qed
    qed
  qed
qed

lemma add_exists:
  "well_formed s \<Longrightarrow> this < next_addr s \<Longrightarrow> 0 \<le> t_maxDepth (nodes s this) \<Longrightarrow>
   \<exists>s'. add_run G s this e s'"
proof (induction "levels (nodes s this)" arbitrary: s this e rule: less_induct)
  case less
  have A: "\<exists>r. add_run G s1 this1 e1 r"
    if "well_formed s1" "this1 < next_addr s1" "0 \<le> t_maxDepth (nodes s1 this1)"
       "levels (nodes s1 this1) < levels (nodes s this)" for s1 this1 e1
    using that(4,1,2,3) by (rule less.hyps)
  from less.prems(1,2) have "t_elementsParents (nodes s (rootTree s this)) \<noteq> None"
    unfolding well_formed_def by blast
  from create_returns [OF this] obtain l s0 where
    g: "priv_GetParentsForElement s this e True = Inr (Some l, s0)"
    by blast
  note ss = same_shape_create [OF g]
  have wf0: "well_formed s0" using ss less.prems(1) by (rule same_shape_well_formed)
  have lim0: "limited (levels (nodes s this)) s0 [this]"
    using less.prems(2,3) by (simp add: limited_def same_shape_fields [OF ss])
  from loop_exists [of "levels (nodes s this)" G, OF A wf0 lim0]
  obtain s' where "loop_run G e (rootTree s this) [this] s0 s'"
    by blast
  with g show ?case by (blast intro: add)
qed

lemma AddElement_returns:
  assumes wf: "well_formed s" and node: "this < next_addr s"
      and lim: "0 \<le> t_maxDepth (nodes s this)"
  shows "\<exists>k s'. \<forall>k'\<ge>k. AddElement k' G s this e = Inr (inside G e (nodes s this), s')"
proof -
  from add_exists [OF assms] obtain s' where "add_run G s this e s'" by blast
  from run_complete(4) [OF this] obtain k where
    k: "\<forall>k'\<ge>k. AddElement k' G s this e =
          Inr (length (elParents_of s (rootTree s this) e)
                 < length (elParents_of s' (rootTree s this) e), s')"
    by blast
  from wf node have rt: "rootTree s this < next_addr s"
    unfolding well_formed_def by blast
  from k have "AddElement k G s this e =
          Inr (length (elParents_of s (rootTree s this) e)
                 < length (elParents_of s' (rootTree s this) e), s')"
    by simp
  from AddElement_result(1) [OF this rt]
  have "(length (elParents_of s (rootTree s this) e)
           < length (elParents_of s' (rootTree s this) e)) = inside G e (nodes s this)" .
  with k show ?thesis by auto
qed

section \<open>Heaps built by programs are well-formed\<close>

lemma RemoveElement_loop_same_shape: "same_shape s (RemoveElement_loop element rt s)"
proof (induction element rt s rule: RemoveElement_loop.induct)
  case (1 element rt s)
  show ?case
  proof (cases "length (elParents_of s rt element) > 0")
    case True
    let ?s1 = "remove_from (last (elParents_of s rt element)) element (pop_elParents rt element s)"
    have "same_shape s ?s1"
      using same_shape_pop_elParents same_shape_remove_from by (rule same_shape_trans)
    moreover have "same_shape ?s1 (RemoveElement_loop element rt ?s1)"
      using True by (intro 1) simp_all
    ultimately have "same_shape s (RemoveElement_loop element rt ?s1)"
      by (rule same_shape_trans)
    then show ?thesis
      using True by (subst RemoveElement_loop.simps) (simp add: Let_def)
  next
    case False
    then show ?thesis by (subst RemoveElement_loop.simps) simp
  qed
qed

lemma RemoveElement_same_shape:
  assumes "RemoveElement s this e = Inr (b, s')"
  shows "same_shape s s'"
proof -
  have l: "same_shape s (RemoveElement_loop e (rootTree s this) s)"
    by (rule RemoveElement_loop_same_shape)
  have "same_shape (RemoveElement_loop e (rootTree s this) s)
          (set_elParents rt e None (RemoveElement_loop e (rootTree s this) s))" for rt
    by simp
  with l have "same_shape s (set_elParents rt e None (RemoveElement_loop e (rootTree s this) s))"
    for rt
    by (rule same_shape_trans)
  then show ?thesis
    using assms
    by (auto simp: RemoveElement_def HasElement_def priv_GetParentsForElement_def
                   priv_RemoveParentsForElement_def Let_def
             split: sum.splits option.splits if_splits prod.splits)
qed

lemma exec_well_formed:
  "exec fuel ops G s = Inr (bs, G', s') \<Longrightarrow> well_formed s \<Longrightarrow> well_formed s'"
proof (induction fuel ops G s arbitrary: bs rule: exec.induct)
  case (1 fuel G s)
  then show ?case by simp
next
  case (2 fuel e sh ops G s)
  from "2.prems"(1) have "exec fuel ops (G(e := sh)) s = Inr (bs, G', s')" by simp
  then show ?case using "2.prems"(2) by (rule "2.IH")
next
  case (3 fuel a e ops G s)
  from "3.prems"(1) obtain b s1 bs1 where
    a: "a < next_addr s" and r: "AddElement fuel G s a e = Inr (b, s1)" and
    x: "exec fuel ops G s1 = Inr (bs1, G', s')"
    by (auto split: if_splits sum.splits prod.splits)
  have "well_formed s1"
    using AddElement_run [OF r] "3.prems"(2) a by (rule run_well_formed(4))
  then show ?case by (intro "3.IH" [OF _ r refl x]) (simp_all add: a)
next
  case (4 fuel a e ops G s)
  from "4.prems"(1) obtain b s1 bs1 where
    a: "a < next_addr s" and r: "RemoveElement s a e = Inr (b, s1)" and
    x: "exec fuel ops G s1 = Inr (bs1, G', s')"
    by (auto split: if_splits sum.splits prod.splits)
  have "well_formed s1"
    using RemoveElement_same_shape [OF r] "4.prems"(2) by (rule same_shape_well_formed)
  then show ?case by (intro "4.IH" [OF _ r refl x]) (simp_all add: a)
next
  case (5 fuel a e ops G s)
  from "5.prems"(1) obtain b s1 bs1 where
    a: "a < next_addr s" and r: "UpdateElement fuel G s a e = Inr (b, s1)" and
    x: "exec fuel ops G s1 = Inr (bs1, G', s')"
    by (auto split: if_splits sum.splits prod.splits)
  from r obtain rb s0 where
    rm: "RemoveElement s a e = Inr (rb, s0)" and
    ad: "s1 = s0 \<or> (\<exists>b'. AddElement fuel G s0 a e = Inr (b', s1))"
    by (auto simp: UpdateElement_def split: sum.splits prod.splits if_splits)
  note ss = RemoveElement_same_shape [OF rm]
  have wf0: "well_formed s0" using ss "5.prems"(2) by (rule same_shape_well_formed)
  have a0: "a < next_addr s0" using a same_shape_fields(1) [OF ss] by simp
  from ad have "well_formed s1"
  proof
    assume "s1 = s0"
    with wf0 show ?thesis by simp
  next
    assume "\<exists>b'. AddElement fuel G s0 a e = Inr (b', s1)"
    then obtain b' where "AddElement fuel G s0 a e = Inr (b', s1)" by blast
    from AddElement_run [OF this] wf0 a0 show ?thesis by (rule run_well_formed(4))
  qed
  then show ?case by (intro "5.IH" [OF _ r refl x]) (simp_all add: a)
qed

lemma well_formed_empty_heap: "well_formed empty_heap"
  by (simp add: well_formed_def empty_heap_def)

lemma program_well_formed:
  assumes "program fuel G x y width height maxElements maxDepth inits ops = Inr (bs, G', s)"
  shows "well_formed s"
proof -
  from assms obtain r s0 where
    n: "QuadTree_new fuel G empty_heap x y width height maxElements maxDepth inits None =
          Inr (r, s0)" and
    x: "exec fuel ops G s0 = Inr (bs, G', s)"
    by (auto simp: program_def split: sum.splits prod.splits)
  have "well_formed s0"
    using QuadTree_new_run [OF n] well_formed_empty_heap by (rule run_well_formed(2)) simp
  with x show ?thesis by (rule exec_well_formed)
qed

text \<open>An insertion that meets no subdivision returns with three units of fuel.\<close>

lemma AddElement_no_split:
  assumes idx: "t_elementsParents (nodes s (rootTree s this)) \<noteq> None"
      and rt: "rootTree s this < next_addr s"
      and c: "\<not> inside G e (nodes s this) \<or>
              (\<not> IsSplit (nodes s this) \<and>
               int (length (t_elements (nodes s this))) < t_maxElements (nodes s this))"
  shows "\<exists>r. AddElement (Suc (Suc (Suc k))) G s this e = Inr (inside G e (nodes s this), r)"
proof -
  from create_returns [OF idx] obtain l s0 where
    g: "priv_GetParentsForElement s this e True = Inr (Some l, s0)"
    by blast
  note f = create_fields [OF g]
  have "\<exists>r. AddElement_loop (Suc (Suc k)) G e (rootTree s this) [this] s0 = Inr r"
  proof (cases "inside G e (nodes s this)")
    case False
    then show ?thesis using f(3) by simp
  next
    case True
    with c have leaf: "\<not> IsSplit (nodes s this)"
      and room: "int (length (t_elements (nodes s this))) < t_maxElements (nodes s this)"
      by simp_all
    have "\<not> may_split (nodes (record_element (rootTree s this) e this s0) this)"
      unfolding f(5) using room by (simp add: may_split_record)
    then show ?thesis
      using True leaf f(3,4) by (simp add: Let_def)
  qed
  then obtain r where "AddElement_loop (Suc (Suc k)) G e (rootTree s this) [this] s0 = Inr r"
    by blast
  with g obtain b where a: "AddElement (Suc (Suc (Suc k))) G s this e = Inr (b, r)"
    by (simp add: Let_def del: AddElement_loop.simps)
  from AddElement_result(1) [OF a rt] a show ?thesis by blast
qed


lemma heap_of_program_well_formed:
  assumes "returns (program fuel G x y width height maxElements maxDepth inits ops)"
  shows "well_formed (heap_of (program fuel G x y width height maxElements maxDepth inits ops))"
proof -
  from assms obtain bs G' s where
    p: "program fuel G x y width height maxElements maxDepth inits ops = Inr (bs, G', s)"
    by (cases "program fuel G x y width height maxElements maxDepth inits ops")
       (auto simp: returns_def)
  from program_well_formed [OF p] show ?thesis by (simp add: heap_of_def p)
qed

(*CLAIMS*)

section \<open>The containment predicates\<close>

text \<open>
  Claim C8, as amended.  The point predicate is the half-open test on both axes against
  the rounded sums \<open>x + width\<close> and \<open>y + height\<close>; where these sums are exact it is
  membership in the real half-open intervals.  Two rectangles of which the second
  starts where the first ends, at the double \<open>x + w1\<close>, never both contain a point; and
  a point of a rectangle \<open>(x, y, w, h)\<close> lies in exactly one of them when the far edge
  \<open>(x + w1) + w2\<close> of the second is the far edge \<open>x + w\<close> of that rectangle.
\<close>

theorem point_half_open_adjacent:
  "(IsInsideRect (Point px py) x y w h \<longleftrightarrow>
      nle x px \<and> nlt px (nadd x w) \<and> nle y py \<and> nlt py (nadd y h)) \<and>
   (nadd (Fin xr) (Fin wr) = Fin (xr + wr) \<and> nadd (Fin yr) (Fin hr) = Fin (yr + hr) \<longrightarrow>
      (IsInsideRect (Point (Fin pxr) (Fin pyr)) (Fin xr) (Fin yr) (Fin wr) (Fin hr) \<longleftrightarrow>
         xr \<le> pxr \<and> pxr < xr + wr \<and> yr \<le> pyr \<and> pyr < yr + hr)) \<and>
   \<not> (IsInsideRect (Point px py) x y w1 h \<and> IsInsideRect (Point px py) (nadd x w1) y w2 h) \<and>
   \<not> (IsInsideRect (Point px py) x y w h1 \<and> IsInsideRect (Point px py) x (nadd y h1) w h2) \<and>
   (nadd (nadd x w1) w2 = nadd x w \<and> IsInsideRect (Point px py) x y w h \<longrightarrow>
      (IsInsideRect (Point px py) x y w1 h \<noteq> IsInsideRect (Point px py) (nadd x w1) y w2 h)) \<and>
   (nadd (nadd y h1) h2 = nadd y h \<and> IsInsideRect (Point px py) x y w h \<longrightarrow>
      (IsInsideRect (Point px py) x y w h1 \<noteq> IsInsideRect (Point px py) x (nadd y h1) w h2))"
proof -
  have a: "IsInsideRect (Point px py) x y w h \<longleftrightarrow>
      nle x px \<and> nlt px (nadd x w) \<and> nle y py \<and> nlt py (nadd y h)"
    by auto
  have b: "IsInsideRect (Point (Fin pxr) (Fin pyr)) (Fin xr) (Fin yr) (Fin wr) (Fin hr) \<longleftrightarrow>
         xr \<le> pxr \<and> pxr < xr + wr \<and> yr \<le> pyr \<and> pyr < yr + hr"
    if "nadd (Fin xr) (Fin wr) = Fin (xr + wr)" "nadd (Fin yr) (Fin hr) = Fin (yr + hr)"
    unfolding IsInsideRect.simps that by auto
  have c: "\<not> (nlt p (nadd u v) \<and> nle (nadd u v) p)" for p u v
    using nlt_nle_cases by blast
  have d: "nlt p (nadd u v1) \<noteq> (nle (nadd u v1) p \<and> nlt p (nadd (nadd u v1) v2))"
    if "nadd (nadd u v1) v2 = nadd u v" "nle u p" "nlt p (nadd u v)" for p u v v1 v2
  proof (cases "nlt p (nadd u v1)")
    case True
    then show ?thesis using c by blast
  next
    case False
    have "p \<noteq> NaN" using that(2) nle_not_NaN by blast
    moreover have "nadd u v1 \<noteq> NaN"
    proof
      assume "nadd u v1 = NaN"
      then have "nadd u v = NaN" using that(1) by simp
      then show False using that(3) nlt_not_NaN by blast
    qed
    ultimately have "nle (nadd u v1) p" using False nle_total by blast
    then show ?thesis using False that by simp
  qed
  have e: "\<not> (IsInsideRect (Point px py) x y w1 h \<and> IsInsideRect (Point px py) (nadd x w1) y w2 h)"
    using c [of px x w1] by auto
  have f: "\<not> (IsInsideRect (Point px py) x y w h1 \<and> IsInsideRect (Point px py) x (nadd y h1) w h2)"
    using c [of py y h1] by auto
  have g: "IsInsideRect (Point px py) x y w1 h \<noteq> IsInsideRect (Point px py) (nadd x w1) y w2 h"
    if "nadd (nadd x w1) w2 = nadd x w" "IsInsideRect (Point px py) x y w h"
    using d [of x w1 w2 w px] that by auto
  have h: "IsInsideRect (Point px py) x y w h1 \<noteq> IsInsideRect (Point px py) x (nadd y h1) w h2"
    if "nadd (nadd y h1) h2 = nadd y h" "IsInsideRect (Point px py) x y w h"
    using d [of y h1 h2 h py] that by auto
  from a b e f g h show ?thesis by (simp del: IsInsideRect.simps)
qed

theorem point_half_open_adjacent_witness:
  "nadd (Fin 0) (Fin 100) = Fin (0 + 100) \<and>
   nadd (nadd (Fin 0) (Fin 50)) (Fin 50) = nadd (Fin 0) (Fin 100) \<and>
   IsInsideRect (Point (Fin 50) (Fin 10)) (Fin 0) (Fin 0) (Fin 100) (Fin 100) \<and>
   \<not> IsInsideRect (Point (Fin 50) (Fin 10)) (Fin 0) (Fin 0) (Fin 50) (Fin 100) \<and>
   IsInsideRect (Point (Fin 50) (Fin 10)) (nadd (Fin 0) (Fin 50)) (Fin 0) (Fin 50) (Fin 100) \<and>
   IsInsideRect (Point (Fin 10) (Fin 50)) (Fin 0) (Fin 0) (Fin 100) (Fin 100) \<and>
   \<not> IsInsideRect (Point (Fin 10) (Fin 50)) (Fin 0) (Fin 0) (Fin 100) (Fin 50) \<and>
   IsInsideRect (Point (Fin 10) (Fin 50)) (Fin 0) (nadd (Fin 0) (Fin 50)) (Fin 100) (Fin 50)"
  using point_half_open_adjacent
          [of "Fin 50" "Fin 10" "Fin 0" "Fin 0" "Fin 100" "Fin 100" 0 100 0 100 50 10
              "Fin 50" "Fin 50" "Fin 50" "Fin 50"]
        point_half_open_adjacent
          [of "Fin 10" "Fin 50" "Fin 0" "Fin 0" "Fin 100" "Fin 100" 0 100 0 100 10 50
              "Fin 50" "Fin 50" "Fin 50" "Fin 50"]
  by simp

text \<open>
  The claim as stated fails.  The root \<open>(2 ^ 53, 0, 2, 1)\<close> contains the point
  \<open>(2 ^ 53, 0)\<close>; its two halves, as \<open>AddElement\<close> computes them, are \<open>(2 ^ 53, 0, 1, 1)\<close>
  and \<open>(2 ^ 53 + 1, 0, 1, 1)\<close>, where \<open>2 ^ 53 + 1\<close> rounds to \<open>2 ^ 53\<close>; the point is in
  neither, although \<open>2 ^ 53\<close> lies in the real interval from \<open>2 ^ 53\<close> to \<open>2 ^ 53 + 1\<close>.
\<close>

theorem point_half_open_counterexample:
  "IsInsideRect (Point (Fin (2 ^ 53)) (Fin 0)) (Fin (2 ^ 53)) (Fin 0) (Fin 2) (Fin 1) \<and>
   nhalf (Fin 2) = Fin 1 \<and>
   \<not> IsInsideRect (Point (Fin (2 ^ 53)) (Fin 0)) (Fin (2 ^ 53)) (Fin 0) (nhalf (Fin 2)) (Fin 1) \<and>
   \<not> IsInsideRect (Point (Fin (2 ^ 53)) (Fin 0))
        (nadd (Fin (2 ^ 53)) (nhalf (Fin 2))) (Fin 0) (nhalf (Fin 2)) (Fin 1) \<and>
   (2 ^ 53 :: real) \<le> 2 ^ 53 \<and> (2 ^ 53 :: real) < 2 ^ 53 + 1"
  using rnd_2p53_1 rnd_2p53_2 by simp

text \<open>
  Claim C9, as amended.  For a rectangle of non-negative width and height, and where
  every intermediate result of the computation (the far edges, the two differences,
  their squares, the sum of the squares and \<open>r * r\<close>) is a double, so that no operation
  rounds, the circle predicate holds exactly when the squared distance from the centre
  to the centre clamped into the rectangle's span is at most \<open>r * r\<close>.  Tangency
  (equality) then counts as overlap, while a rectangle element that only touches an
  edge does not overlap.
\<close>

theorem circle_closest_point:
  assumes "0 \<le> width" and "0 \<le> height"
      and "exact (x + width)" and "exact (y + height)"
      and "exact (dist_spec cx x width)" and "exact (dist_spec cy y height)"
      and "exact (dist_spec cx x width * dist_spec cx x width)"
      and "exact (dist_spec cy y height * dist_spec cy y height)"
      and "exact (sqDistance_spec cx cy x y width height)" and "exact (r * r)"
  shows "(IsInsideRect (Circle (Fin cx) (Fin cy) (Fin r)) (Fin x) (Fin y) (Fin width) (Fin height)
            \<longleftrightarrow> sqDistance_spec cx cy x y width height \<le> r * r) \<and>
         (sqDistance_spec cx cy x y width height = r * r \<longrightarrow>
            IsInsideRect (Circle (Fin cx) (Fin cy) (Fin r))
              (Fin x) (Fin y) (Fin width) (Fin height)) \<and>
         (nadd ex ew = rx \<or> ex = nadd rx rw \<or> nadd ey eh = ry \<or> ey = nadd ry rh \<longrightarrow>
            \<not> IsInsideRect (Rect ex ey ew eh) rx ry rw rh)"
  using circle_code_exact [OF assms] rect_touching [of ex ew rx rw ey eh ry rh]
  by (simp del: IsInsideRect.simps)

theorem circle_closest_point_witness:
  "(0::real) \<le> 10 \<and> exact (0 + 10) \<and> exact (dist_spec 15 0 10) \<and> exact (dist_spec 5 0 10) \<and>
   exact (dist_spec 15 0 10 * dist_spec 15 0 10) \<and> exact (dist_spec 5 0 10 * dist_spec 5 0 10) \<and>
   exact (sqDistance_spec 15 5 0 0 10 10) \<and> exact (5 * 5) \<and> exact (4 * 4) \<and>
   sqDistance_spec 15 5 0 0 10 10 = 5 * 5 \<and>
   IsInsideRect (Circle (Fin 15) (Fin 5) (Fin 5)) (Fin 0) (Fin 0) (Fin 10) (Fin 10) \<and>
   \<not> IsInsideRect (Circle (Fin 15) (Fin 5) (Fin 4)) (Fin 0) (Fin 0) (Fin 10) (Fin 10) \<and>
   \<not> IsInsideRect (Rect (Fin 10) (Fin 0) (Fin 5) (Fin 5)) (Fin 0) (Fin 0) (Fin 10) (Fin 10)"
proof -
  have h: "(0::real) \<le> 10" by simp
  have d: "dist_spec 15 0 10 = 5" "dist_spec 5 0 10 = 0" "sqDistance_spec 15 5 0 0 10 10 = 5 * 5"
    by (simp_all add: sqDistance_spec_def dist_spec_def clamp_spec_def)
  have e: "exact (0 + 10)" "exact (dist_spec 15 0 10)" "exact (dist_spec 5 0 10)"
    "exact (dist_spec 15 0 10 * dist_spec 15 0 10)" "exact (dist_spec 5 0 10 * dist_spec 5 0 10)"
    "exact (sqDistance_spec 15 5 0 0 10 10)" "exact (5 * 5)" "exact (4 * 4)"
    unfolding d by (simp_all add: exact_def)
  have t: "Fin 10 = nadd (Fin 0) (Fin 10)" by simp
  from circle_closest_point [OF h h e(1) e(1) e(2) e(3) e(4) e(5) e(6) e(7),
         of "Fin 10" "Fin 5" "Fin 0" "Fin 10" "Fin 0" "Fin 5" "Fin 0" "Fin 10"]
       circle_closest_point [OF h h e(1) e(1) e(2) e(3) e(4) e(5) e(6) e(8),
         of "Fin 10" "Fin 5" "Fin 0" "Fin 10" "Fin 0" "Fin 5" "Fin 0" "Fin 10"]
       d e t
  show ?thesis by (simp del: IsInsideRect.simps)
qed

text \<open>
  The claim as stated fails in both directions, and for a rectangle of negative width.
  The circle with centre \<open>(-506486619, -147569620)\<close> and radius \<open>527546669\<close> is exactly
  tangent to the corner \<open>(0, 0)\<close> of the rectangle \<open>(0, 0, 1, 1)\<close>, and the predicate is
  false: the squares exceed \<open>2 ^ 53\<close> and are rounded.  The circle \<open>(0.1, 0.5)\<close> of radius
  \<open>1\<close> and the rectangle \<open>(1.1, 0, 0.1, 1)\<close> are at a squared distance above \<open>1\<close>, and the
  predicate is true: the difference \<open>0.1 - 1.1\<close> rounds to \<open>-1\<close>.  For the rectangle
  \<open>(0, 0, -10, 10)\<close> the code takes \<open>-10\<close> as the closest abscissa to \<open>5\<close>, not the
  clamped \<open>0\<close>.
\<close>

theorem circle_closest_point_counterexample:
  "sqDistance_spec (- 506486619) (- 147569620) 0 0 1 1 = 527546669 * 527546669 \<and>
   \<not> IsInsideRect (Circle (Fin (- 506486619)) (Fin (- 147569620)) (Fin 527546669))
        (Fin 0) (Fin 0) (Fin 1) (Fin 1) \<and>
   rnd (1 / 10) = Fin (3602879701896397 / 2 ^ 55) \<and>
   rnd (11 / 10) = Fin (2476979795053773 / 2 ^ 51) \<and>
   1 * 1 < sqDistance_spec (3602879701896397 / 2 ^ 55) (1 / 2)
             (2476979795053773 / 2 ^ 51) 0 (3602879701896397 / 2 ^ 55) 1 \<and>
   IsInsideRect (Circle (rnd (1 / 10)) (Fin (1 / 2)) (Fin 1))
     (rnd (11 / 10)) (Fin 0) (rnd (1 / 10)) (Fin 1) \<and>
   sqDistance_spec 5 5 0 0 (- 10) 10 \<le> 10 * 10 \<and>
   \<not> IsInsideRect (Circle (Fin 5) (Fin 5) (Fin 10)) (Fin 0) (Fin 0) (Fin (- 10)) (Fin 10)"
proof -
  have a: "sqDistance_spec (- 506486619) (- 147569620) 0 0 1 1 = 527546669 * 527546669"
    by (simp add: sqDistance_spec_def dist_spec_def clamp_spec_def)
  have b: "\<not> IsInsideRect (Circle (Fin (- 506486619)) (Fin (- 147569620)) (Fin 527546669))
        (Fin 0) (Fin 0) (Fin 1) (Fin 1)"
    by (simp add: nsub_def rnd_tangent)
  have c: "1 * 1 < sqDistance_spec (3602879701896397 / 2 ^ 55) (1 / 2)
             (2476979795053773 / 2 ^ 51) 0 (3602879701896397 / 2 ^ 55) 1"
    by (simp add: sqDistance_spec_def dist_spec_def clamp_spec_def)
  have h: "rnd (1 / 2) = Fin (1 / 2)"
    using rnd_exact [of "1 / 2" 1 "- 1"] by (simp add: pow2_def)
  have d: "IsInsideRect (Circle (rnd (1 / 10)) (Fin (1 / 2)) (Fin 1))
     (rnd (11 / 10)) (Fin 0) (rnd (1 / 10)) (Fin 1)"
    unfolding rnd_tenths by (simp add: nsub_def rnd_tenths h)
  have e: "sqDistance_spec 5 5 0 0 (- 10) 10 \<le> 10 * 10"
    by (simp add: sqDistance_spec_def dist_spec_def clamp_spec_def)
  have f: "\<not> IsInsideRect (Circle (Fin 5) (Fin 5) (Fin 10)) (Fin 0) (Fin 0) (Fin (- 10)) (Fin 10)"
    by (simp add: nsub_def)
  from a b c d e f rnd_tenth rnd_eleven_tenths show ?thesis by (simp del: IsInsideRect.simps)
qed

section \<open>Insertion: subdivision and the returned flag\<close>

text \<open>
  Claim C1.  A leaf subdivides on an insertion exactly when the element count after
  the append exceeds \<open>maxElements\<close> and the depth limit allows it.  The current copy of
  the tree does so (\<open>add_run_leaf\<close>, \<open>fresh_leaf_capacity\<close>).  The older copy of
  \<open>QuadTree.js\<close> does not: it tests \<open>length >= maxElements\<close>, so on a fresh root with
  \<open>maxElements = 2\<close> the second insertion, which brings the count to exactly the
  capacity, already splits the root, while the current copy leaves it a leaf.
\<close>

theorem older_copy_splits_at_capacity:
  "root_split_old 20 G_points (Fin 0) (Fin 0) (Fin 100) (Fin 100) 2 (-1) [1, 2] = Inr True \<and>
   returns (program 4 G_points (Fin 0) (Fin 0) (Fin 100) (Fin 100) 2 (-1) []
              [Add 0 1, Add 0 2]) \<and>
   \<not> IsSplit (nodes (heap_of (program 4 G_points (Fin 0) (Fin 0) (Fin 100) (Fin 100) 2 (-1) []
                                 [Add 0 1, Add 0 2])) 0)"
  by (simp add: norm_simps)

text \<open>
  Claim C10.  Inserting an element that does not overlap the bounds of the node, and
  that has no membership recorded in the owner index (no entry, or an empty one),
  returns, with any fuel from 3 on, and returns false; it allocates nothing and changes
  no node's elements or children; the only effect is on the owner index, where an
  empty entry for the element is created if there was none.  Afterwards
  \<open>GetParentsForElement\<close> returns the empty sequence, not the none of an element that
  has no entry.
\<close>

theorem AddElement_outside_bounds:
  assumes "GetParentsForElement s this e = Inr None \<or>
           GetParentsForElement s this e = Inr (Some [])"
      and "\<not> inside G e (nodes s this)"
  shows "\<exists>s'. AddElement (Suc (Suc (Suc k))) G s this e = Inr (False, s') \<and>
              next_addr s' = next_addr s \<and>
              (\<forall>a. t_elements (nodes s' a) = t_elements (nodes s a) \<and>
                   t_children (nodes s' a) = t_children (nodes s a)) \<and>
              GetParentsForElement s' this e = Inr (Some [])"
  using assms by (rule AddElement_outside)

theorem AddElement_outside_bounds_witness:
  "GetParentsForElement fresh_tree 0 4 = Inr None \<and>
   \<not> inside G_points 4 (nodes fresh_tree 0) \<and>
   (\<exists>s'. AddElement 3 G_points fresh_tree 0 4 = Inr (False, s') \<and>
         t_elements (nodes s' 0) = [] \<and>
         GetParentsForElement s' 0 4 = Inr (Some []))"
proof -
  have n: "GetParentsForElement fresh_tree 0 4 = Inr None" by (simp add: norm_simps)
  have h: "\<not> inside G_points 4 (nodes fresh_tree 0)" by (simp add: norm_simps)
  have e: "t_elements (nodes fresh_tree 0) = []" by (simp add: norm_simps)
  from AddElement_outside_bounds [OF disjI1 [OF n] h, of 0] obtain s' where
    "AddElement (Suc (Suc (Suc 0))) G_points fresh_tree 0 4 = Inr (False, s')"
    "\<forall>a. t_elements (nodes s' a) = t_elements (nodes fresh_tree a) \<and>
         t_children (nodes s' a) = t_children (nodes fresh_tree a)"
    "GetParentsForElement s' 0 4 = Inr (Some [])"
    by blast
  then have "AddElement 3 G_points fresh_tree 0 4 = Inr (False, s') \<and>
         t_elements (nodes s' 0) = [] \<and>
         GetParentsForElement s' 0 4 = Inr (Some [])"
    using e by (simp add: eval_nat_numeral del: AddElement.simps)
  with n h show ?thesis by blast
qed

section \<open>Region queries\<close>

text \<open>
  Claim C6, as amended.  With \<open>filterDuplicates\<close> the result of \<open>GetElementsInRect\<close> is
  the unfiltered result with every element kept once, at its first occurrence: it has
  no element twice, holds the same elements, and is a subsequence of the unfiltered
  result.  On a node that is not split and whose elements list holds no element
  twice, the query returns, and returns the same sequence with and without the
  filter.
\<close>

theorem GetElementsInRect_filterDuplicates:
  "GetElementsInRect fuel s this x y w h True =
     (case GetElementsInRect fuel s this x y w h False of
        Inl e \<Rightarrow> Inl e
      | Inr unfiltered \<Rightarrow> Inr (dedup_first unfiltered)) \<and>
   (GetElementsInRect fuel s this x y w h True = Inr res \<longrightarrow>
      distinct res \<and>
      (\<exists>unfiltered. GetElementsInRect fuel s this x y w h False = Inr unfiltered \<and>
         set res = set unfiltered \<and> subseq res unfiltered)) \<and>
   (\<not> IsSplit (nodes s this) \<and> distinct (t_elements (nodes s this)) \<longrightarrow>
      returns (GetElementsInRect (Suc (Suc k)) s this x y w h True) \<and>
      GetElementsInRect (Suc (Suc k)) s this x y w h False =
      GetElementsInRect (Suc (Suc k)) s this x y w h True)"
proof -
  have eq: "GetElementsInRect fuel s this x y w h True =
     (case GetElementsInRect fuel s this x y w h False of
        Inl e \<Rightarrow> Inl e
      | Inr unfiltered \<Rightarrow> Inr (dedup_first unfiltered))"
    by (simp add: GetElementsInRect_def filter_seen_dedup split: sum.splits)
  have props: "distinct res \<and>
      (\<exists>unfiltered. GetElementsInRect fuel s this x y w h False = Inr unfiltered \<and>
         set res = set unfiltered \<and> subseq res unfiltered)"
    if "GetElementsInRect fuel s this x y w h True = Inr res"
    using that unfolding eq
    by (auto simp: dedup_first_props subseq_dedup_first split: sum.splits)
  have leaf: "returns (GetElementsInRect (Suc (Suc k)) s this x y w h True) \<and>
      GetElementsInRect (Suc (Suc k)) s this x y w h False =
      GetElementsInRect (Suc (Suc k)) s this x y w h True"
    if "\<not> IsSplit (nodes s this)" "distinct (t_elements (nodes s this))"
    using that
    by (simp add: GetElementsInRect_def GetElementsInRect_leaf filter_seen_dedup
                  dedup_first_props returns_def del: GetElementsInRect_loop.simps)
  from eq props leaf show ?thesis by blast
qed

theorem GetElementsInRect_filterDuplicates_witness:
  "GetElementsInRect 6 quadrants_tree 0 (Fin 0) (Fin 0) (Fin 100) (Fin 100) True = Inr [5, 1] \<and>
   GetElementsInRect 6 quadrants_tree 0 (Fin 0) (Fin 0) (Fin 100) (Fin 100) False =
     Inr [5, 5, 5, 1, 5] \<and>
   distinct [5, 1 :: nat] \<and> subseq [5, 1 :: nat] [5, 5, 5, 1, 5] \<and>
   \<not> IsSplit (nodes pair_tree 0) \<and> t_elements (nodes pair_tree 0) = [1, 2] \<and>
   distinct (t_elements (nodes pair_tree 0)) \<and>
   GetElementsInRect (Suc (Suc 0)) pair_tree 0 (Fin 0) (Fin 0) (Fin 100) (Fin 100) True =
     Inr [1, 2] \<and>
   GetElementsInRect (Suc (Suc 0)) pair_tree 0 (Fin 0) (Fin 0) (Fin 100) (Fin 100) False =
     Inr [1, 2]"
proof -
  note e = quadrants_tree_eval
  have l: "\<not> IsSplit (nodes pair_tree 0)" "t_elements (nodes pair_tree 0) = [1, 2]"
    "distinct (t_elements (nodes pair_tree 0))"
    by (simp_all add: norm_simps)
  have r: "GetElementsInRect (Suc (Suc 0)) pair_tree 0 (Fin 0) (Fin 0) (Fin 100) (Fin 100) True =
     Inr [1, 2]"
    by (simp add: norm_simps)
  from GetElementsInRect_filterDuplicates
         [of 6 quadrants_tree 0 "Fin 0" "Fin 0" "Fin 100" "Fin 100" "[5, 1]"]
       GetElementsInRect_filterDuplicates
         [of 0 pair_tree 0 "Fin 0" "Fin 0" "Fin 100" "Fin 100" "[]" 0]
       e l r
  show ?thesis by (simp add: dedup_first_props subseq_dedup_first)
qed

text \<open>
  The claim as stated fails on a tree with no split node in which an element has been
  inserted twice: the unfiltered result holds it twice, the filtered result once.
\<close>

theorem GetElementsInRect_unsplit_counterexample:
  "next_addr twice_tree = 1 \<and> \<not> IsSplit (nodes twice_tree 0) \<and>
   GetElementsInRect 3 twice_tree 0 (Fin 0) (Fin 0) (Fin 100) (Fin 100) False = Inr [1, 1] \<and>
   GetElementsInRect 3 twice_tree 0 (Fin 0) (Fin 0) (Fin 100) (Fin 100) True = Inr [1]"
  by (simp add: norm_simps)

section \<open>The returned flag of an insertion\<close>

text \<open>
  Claim C2, as amended.  \<open>AddElement\<close> returns true exactly when the element overlaps
  the bounds of the node it is called on, which is exactly when the element's entry in
  the owner index grew during the call; whether the element was a member before plays
  no role.  This holds of every run that returns.  In a tree with a depth limit every
  run returns, given enough fuel; with or without a depth limit, a run that meets no
  subdivision (the element is outside the node, or the node is a leaf below its
  capacity) returns with three units of fuel.  Without a depth limit a run need not
  return: the subdivision of a leaf re-inserts its elements into the children, and
  only rounding may end that.
\<close>

theorem AddElement_true_iff_overlap:
  "(AddElement fuel G s this e = Inr (b, s') \<and> rootTree s this < next_addr s \<longrightarrow>
      (b \<longleftrightarrow> inside G e (nodes s this)) \<and>
      (b \<longleftrightarrow> length (elParents_of s (rootTree s this) e)
              < length (elParents_of s' (rootTree s this) e))) \<and>
   (well_formed s \<and> this < next_addr s \<and> 0 \<le> t_maxDepth (nodes s this) \<longrightarrow>
      (\<exists>k r. \<forall>k'\<ge>k. AddElement k' G s this e = Inr (inside G e (nodes s this), r))) \<and>
   (well_formed s \<and> this < next_addr s \<and>
    (\<not> inside G e (nodes s this) \<or>
     (\<not> IsSplit (nodes s this) \<and>
      int (length (t_elements (nodes s this))) < t_maxElements (nodes s this))) \<longrightarrow>
      (\<exists>r. AddElement (Suc (Suc (Suc k0))) G s this e = Inr (inside G e (nodes s this), r)))"
proof -
  have 1: "(b \<longleftrightarrow> inside G e (nodes s this)) \<and>
      (b \<longleftrightarrow> length (elParents_of s (rootTree s this) e)
              < length (elParents_of s' (rootTree s this) e))"
    if run: "AddElement fuel G s this e = Inr (b, s')" and rt: "rootTree s this < next_addr s"
  proof -
    from run rt have "b = inside G e (nodes s this)"
      by (rule AddElement_result(1))
    moreover from run have
      "b = (length (elParents_of s' (rootTree s this) e)
              > length (elParents_of s (rootTree s this) e))"
      by (rule AddElement_Inr)
    ultimately show ?thesis by simp
  qed
  have 2: "\<exists>k r. \<forall>k'\<ge>k. AddElement k' G s this e = Inr (inside G e (nodes s this), r)"
    if "well_formed s" "this < next_addr s" "0 \<le> t_maxDepth (nodes s this)"
    using that by (rule AddElement_returns)
  have 3: "\<exists>r. AddElement (Suc (Suc (Suc k0))) G s this e = Inr (inside G e (nodes s this), r)"
    if wf: "well_formed s" and node: "this < next_addr s"
      and c: "\<not> inside G e (nodes s this) \<or>
         (\<not> IsSplit (nodes s this) \<and>
          int (length (t_elements (nodes s this))) < t_maxElements (nodes s this))"
  proof -
    from wf node have "t_elementsParents (nodes s (rootTree s this)) \<noteq> None"
      "rootTree s this < next_addr s"
      unfolding well_formed_def by blast+
    then show ?thesis using c by (rule AddElement_no_split)
  qed
  from 1 2 3 show ?thesis by blast
qed

theorem AddElement_true_iff_overlap_witness:
  "well_formed limited_tree \<and> 0 < next_addr limited_tree \<and>
   rootTree limited_tree 0 < next_addr limited_tree \<and>
   0 \<le> t_maxDepth (nodes limited_tree 0) \<and> inside G_points 1 (nodes limited_tree 0) \<and>
   (\<exists>r. AddElement 8 G_points limited_tree 0 1 = Inr (True, r)) \<and>
   (\<exists>k r. \<forall>k'\<ge>k. AddElement k' G_points limited_tree 0 1 = Inr (True, r)) \<and>
   well_formed fresh_tree \<and> \<not> IsSplit (nodes fresh_tree 0) \<and>
   int (length (t_elements (nodes fresh_tree 0))) < t_maxElements (nodes fresh_tree 0) \<and>
   (\<exists>r. AddElement 3 G_points fresh_tree 0 1 = Inr (True, r))"
proof -
  have wl: "well_formed limited_tree"
    unfolding limited_tree_def by (rule heap_of_program_well_formed) (simp add: norm_simps)
  have wf: "well_formed fresh_tree"
    unfolding fresh_tree_def by (rule heap_of_program_well_formed) (simp add: norm_simps)
  have l: "0 < next_addr limited_tree" "rootTree limited_tree 0 < next_addr limited_tree"
    "0 \<le> t_maxDepth (nodes limited_tree 0)" "inside G_points 1 (nodes limited_tree 0)"
    by (simp_all add: norm_simps)
  have f: "0 < next_addr fresh_tree" "\<not> IsSplit (nodes fresh_tree 0)"
    "int (length (t_elements (nodes fresh_tree 0))) < t_maxElements (nodes fresh_tree 0)"
    "inside G_points 1 (nodes fresh_tree 0)"
    by (simp_all add: norm_simps)
  have "returns (AddElement 8 G_points limited_tree 0 1)" by (simp add: norm_simps)
  then obtain b r where run: "AddElement 8 G_points limited_tree 0 1 = Inr (b, r)"
    by (cases "AddElement 8 G_points limited_tree 0 1") (auto simp: returns_def)
  note t1 = AddElement_true_iff_overlap [of 8 G_points limited_tree 0 1 b r 0]
  note t2 = AddElement_true_iff_overlap [of 0 G_points fresh_tree 0 1 False fresh_tree 0]
  from t1 run l have b by blast
  with run have a: "\<exists>r. AddElement 8 G_points limited_tree 0 1 = Inr (True, r)" by simp
  from t1 wl l have c: "\<exists>k r. \<forall>k'\<ge>k. AddElement k' G_points limited_tree 0 1 = Inr (True, r)"
    by simp
  from t2 wf f have "\<exists>r. AddElement (Suc (Suc (Suc 0))) G_points fresh_tree 0 1 = Inr (True, r)"
    by simp
  then have d: "\<exists>r. AddElement 3 G_points fresh_tree 0 1 = Inr (True, r)"
    by (simp add: eval_nat_numeral del: AddElement.simps)
  from wl wf l f a c d show ?thesis by blast
qed

text \<open>
  The claim as stated fails: after a first insertion the element is a member of the
  root (\<open>HasElement\<close> holds), and a second insertion of the same element returns true
  again.
\<close>

theorem AddElement_member_counterexample:
  "HasElement (heap_of (program 4 G_points (Fin 0) (Fin 0) (Fin 100) (Fin 100) 50 (-1) []
                          [Add 0 1])) 0 1 = Inr True \<and>
   results_of (program 4 G_points (Fin 0) (Fin 0) (Fin 100) (Fin 100) 50 (-1) []
                 [Add 0 1, Add 0 1]) = Some [True, True]"
  by (simp add: norm_simps)

end
